theory Spec2Isabelle
  imports Main "HOL-Library.AList" "HOL-Library.Multiset"
begin

section \<open>The pipeline engine of the archiver (core/orchestrator.py)\<close>

text \<open>
  The orchestrator drives one record through its stages by calling into plugins:
  archivers (Fetchers), databases (State Stores), enrichers, storages (Persistence
  Sinks) and one formatter (Renderer). A call returns a value or raises. The handlers
  of \<open>feed_item\<close> and of the download loop tell three classes of errors apart: an
  ordinary \<open>Exception\<close>, which \<open>except Exception\<close> catches; \<open>KeyboardInterrupt\<close>,
  which only \<open>except KeyboardInterrupt\<close> catches; and the errors that are neither, such
  as \<open>SystemExit\<close>, which no handler of the orchestrator catches.
\<close>

datatype error = Exception | KeyboardInterrupt | SystemExit

subsection \<open>Data model\<close>

text \<open>
  Modelled from the spec: the classes \<open>Media\<close> and \<open>Metadata\<close> are imported by the
  orchestrator from \<open>core/media.py\<close> and \<open>core/metadata.py\<close>, which are not among
  the files verified here. A Media Object has
  a local file, a storage locator that is unset until a Persistence Sink sets it, and a
  dictionary of properties (in insertion order) whose values are scalars, Media Objects
  or lists.
\<close>

datatype media = Media (filename: string) (locator: "string option")
    (properties: "(string \<times> pyval) list")
  and pyval = Scalar string | VMedia media | VList "pyval list"

text \<open>
  Modelled from the spec: the Artifact Record, with the fields that the orchestrator
  reads or writes: the URL, the \<open>rearchivable\<close> flag, the key/value metadata written by
  \<open>set\<close>, the Media collection, the final summary media and the temporary directory.
\<close>

record metadata =
  url :: string
  status :: string
  rearchivable :: bool
  meta :: "(string \<times> string) list"
  media :: "media list"
  final_media :: "media option"
  tmp_dir :: "string option"

text \<open>
  The methods of \<open>Metadata\<close>, whose bodies are in that missing module, are parameters
  of the model:
  the record built by \<open>Metadata()\<close>, \<open>merge\<close> (the receiver after the merge, which is
  also the value the call returns: line 118 uses the value, line 130 the effect), the
  truth value of a record in a condition, \<open>is_success\<close>, and \<open>set_tmp_dir\<close> (the
  record after the call, or the error that the call raised).
\<close>

record metadata_class =
  new_metadata :: metadata
  merge :: "metadata \<Rightarrow> metadata \<Rightarrow> metadata"
  truthy :: "metadata \<Rightarrow> bool"
  is_success :: "metadata \<Rightarrow> bool"
  set_tmp_dir :: "string \<Rightarrow> metadata \<Rightarrow> error + metadata"

definition set_meta :: "string \<Rightarrow> string \<Rightarrow> metadata \<Rightarrow> metadata" where
  "set_meta k v r = r\<lparr>meta := AList.update k v (meta r)\<rparr>"

definition set_media_locator :: "string \<Rightarrow> media \<Rightarrow> media" where
  "set_media_locator loc m = Media (filename m) (Some loc) (properties m)"

definition set_properties :: "(string \<times> pyval) list \<Rightarrow> media \<Rightarrow> media" where
  "set_properties ps m = Media (filename m) (locator m) ps"

fun set_locator :: "string \<Rightarrow> pyval \<Rightarrow> pyval" where
  "set_locator loc (VMedia m) = VMedia (set_media_locator loc m)"
| "set_locator loc v = v"

subsection \<open>Stage contracts\<close>

text \<open>
  Modelled from the spec: the plugin base classes (\<open>Archiver\<close>, \<open>Database\<close>,
  \<open>Enricher\<close>, \<open>Storage\<close>, \<open>Formatter\<close>) are missing as well. Each plugin is
  the record of its methods. \<open>download\<close> returns the record to merge; \<open>enrich\<close> returns
  the record as the enricher leaves it; \<open>store\<close> returns the storage locator that the
  sink sets on the object it was given; \<open>fetch\<close> and \<open>format\<close> return \<open>None\<close> for
  Python's \<open>None\<close> or \<open>False\<close>. A call that raises leaves its arguments as they were.
\<close>

record archiver =
  name :: string
  sanitize_url :: "string \<Rightarrow> error + string"
  is_rearchivable :: "string \<Rightarrow> error + bool"
  download :: "metadata \<Rightarrow> error + metadata"

record database =
  started :: "metadata \<Rightarrow> error + unit"
  fetch :: "metadata \<Rightarrow> error + metadata option"
  done_db :: "metadata \<Rightarrow> error + unit"
  failed :: "metadata \<Rightarrow> error + unit"
  aborted :: "metadata \<Rightarrow> error + unit"

record enricher =
  enrich :: "metadata \<Rightarrow> error + metadata"

record storage =
  store :: "pyval \<Rightarrow> metadata \<Rightarrow> error + string"

record formatter =
  format :: "metadata \<Rightarrow> error + media option"

text \<open>
  The configuration that the constructor (lines 58-66) copies into the orchestrator,
  with the behaviour of the \<open>Metadata\<close> class beside it. The constructor also calls
  \<open>setup()\<close> on every archiver, once, before any item; no stage depends on it.
\<close>

record config =
  metadata_cls :: metadata_class
  formatter :: formatter
  enrichers :: "enricher list"
  archivers :: "archiver list"
  databases :: "database list"
  storages :: "storage list"

subsection \<open>Calls observed from outside\<close>

text \<open>
  Every call into a plugin is logged with the position of the plugin in its registered
  list and the argument of the call (for \<open>store\<close>, the object to store; its second
  argument is always the record being archived). The log is in call order; a call is
  logged whether it returns or raises.
\<close>

datatype event =
    SanitizeUrl nat string
  | IsRearchivable nat string
  | Started nat metadata
  | Fetch nat metadata
  | Done nat metadata
  | Failed nat metadata
  | Aborted nat metadata
  | Download nat metadata
  | Enrich nat metadata
  | Store nat pyval
  | Format metadata

text \<open>
  A run of a piece of the engine gives the calls it made and either the value it
  returned or the error that escaped it, together with the record \<open>result\<close> as it was
  when the error was raised (the handlers of \<open>feed_item\<close> pass that object on).
\<close>

type_synonym 'a run = "event list \<times> (error \<times> metadata + 'a)"

definition emit :: "event \<Rightarrow> 'a run \<Rightarrow> 'a run" where
  "emit ev m = (ev # fst m, snd m)"

definition bind :: "'a run \<Rightarrow> ('a \<Rightarrow> 'b run) \<Rightarrow> 'b run" where
  "bind m f = (case m of
      (t, Inl e) \<Rightarrow> (t, Inl e)
    | (t, Inr x) \<Rightarrow> (case f x of (t', y) \<Rightarrow> (t @ t', y)))"

subsection \<open>archive, stage by stage\<close>

text \<open>Lines 98-99: \<open>for a in self.archivers: url = a.sanitize_url(url)\<close>.\<close>

fun sanitize_loop :: "(nat \<times> archiver) list \<Rightarrow> metadata \<Rightarrow> string \<Rightarrow> string run" where
  "sanitize_loop [] result u = ([], Inr u)"
| "sanitize_loop ((i, a) # as) result u =
     (case sanitize_url a u of
        Inl e \<Rightarrow> ([SanitizeUrl i u], Inl (e, result))
      | Inr u' \<Rightarrow> emit (SanitizeUrl i u) (sanitize_loop as result u'))"

text \<open>Lines 94-101: the loop, then \<open>set_url\<close> and the side key \<open>original_url\<close>.\<close>

definition sanitize_stage :: "config \<Rightarrow> metadata \<Rightarrow> metadata run" where
  "sanitize_stage cfg result =
     (let original_url = url result in
      bind (sanitize_loop (enumerate 0 (archivers cfg)) result original_url) (\<lambda>u.
        let result1 = result\<lparr>url := u\<rparr> in
        ([], Inr (if original_url \<noteq> u
                  then set_meta ''original_url'' original_url result1
                  else result1))))"

text \<open>Line 105: \<open>for a in self.archivers: result.rearchivable |= a.is_rearchivable(url)\<close>.\<close>

fun rearchivable_loop :: "(nat \<times> archiver) list \<Rightarrow> string \<Rightarrow> metadata \<Rightarrow> metadata run" where
  "rearchivable_loop [] u result = ([], Inr result)"
| "rearchivable_loop ((i, a) # as) u result =
     (case is_rearchivable a u of
        Inl e \<Rightarrow> ([IsRearchivable i u], Inl (e, result))
      | Inr b \<Rightarrow> emit (IsRearchivable i u)
          (rearchivable_loop as u (result\<lparr>rearchivable := rearchivable result \<or> b\<rparr>)))"

definition rearchivable_stage :: "config \<Rightarrow> metadata \<Rightarrow> metadata run" where
  "rearchivable_stage cfg result =
     rearchivable_loop (enumerate 0 (archivers cfg)) (url result) result"

text \<open>
  Lines 110-118. \<open>cached_result or Metadata()\<close> is the candidate when there is one and
  it tests true, a new record otherwise.
\<close>

definition or_new :: "metadata_class \<Rightarrow> metadata option \<Rightarrow> metadata" where
  "or_new cls cached_result =
     (case cached_result of
        None \<Rightarrow> new_metadata cls
      | Some c \<Rightarrow> if truthy cls c then c else new_metadata cls)"

definition merge_local ::
    "metadata_class \<Rightarrow> metadata option \<Rightarrow> metadata option \<Rightarrow> metadata option" where
  "merge_local cls cached_result local_result =
     (case local_result of
        None \<Rightarrow> cached_result
      | Some l \<Rightarrow> if truthy cls l then Some (merge cls (or_new cls cached_result) l)
                  else cached_result)"

fun cache_loop :: "metadata_class \<Rightarrow> (nat \<times> database) list \<Rightarrow> metadata \<Rightarrow>
    metadata option \<Rightarrow> metadata option run" where
  "cache_loop cls [] result cached_result = ([], Inr cached_result)"
| "cache_loop cls ((i, d) # ds) result cached_result =
     (case started d result of
        Inl e \<Rightarrow> ([Started i result], Inl (e, result))
      | Inr _ \<Rightarrow> emit (Started i result)
          (case fetch d result of
             Inl e \<Rightarrow> ([Fetch i result], Inl (e, result))
           | Inr local_result \<Rightarrow> emit (Fetch i result)
               (cache_loop cls ds result (merge_local cls cached_result local_result))))"

definition cache_lookup :: "config \<Rightarrow> metadata \<Rightarrow> metadata option run" where
  "cache_lookup cfg result =
     cache_loop (metadata_cls cfg) (enumerate 0 (databases cfg)) result None"

text \<open>
  \<open>for d in self.databases: d.done(x)\<close>, and the same loop for \<open>failed\<close> and
  \<open>aborted\<close>: \<open>call\<close> is the method, \<open>ev\<close> its event.
\<close>

fun notify_loop :: "(database \<Rightarrow> metadata \<Rightarrow> error + unit) \<Rightarrow> (nat \<Rightarrow> metadata \<Rightarrow> event) \<Rightarrow>
    (nat \<times> database) list \<Rightarrow> metadata \<Rightarrow> event list \<times> (error + unit)" where
  "notify_loop call ev [] x = ([], Inr ())"
| "notify_loop call ev ((i, d) # ds) x =
     (case call d x of
        Inl e \<Rightarrow> ([ev i x], Inl e)
      | Inr _ \<Rightarrow> (case notify_loop call ev ds x of (t, r) \<Rightarrow> (ev i x # t, r)))"

text \<open>An error that escapes a loop inside \<open>archive\<close> leaves \<open>result\<close> as it is.\<close>

definition within :: "metadata \<Rightarrow> event list \<times> (error + 'a) \<Rightarrow> 'a run" where
  "within result m = (case m of (t, Inl e) \<Rightarrow> (t, Inl (e, result)) | (t, Inr x) \<Rightarrow> (t, Inr x))"

definition done_all :: "config \<Rightarrow> metadata \<Rightarrow> metadata \<Rightarrow> unit run" where
  "done_all cfg result x =
     within result (notify_loop done_db Done (enumerate 0 (databases cfg)) x)"

text \<open>Lines 119-123: the cached record is reported done and returned.\<close>

definition short_circuit :: "config \<Rightarrow> metadata \<Rightarrow> metadata \<Rightarrow> metadata run" where
  "short_circuit cfg result cached_result =
     bind (done_all cfg result cached_result) (\<lambda>_. ([], Inr cached_result))"

text \<open>
  Lines 126-132: \<open>except Exception\<close> catches the ordinary error of a download and the
  loop goes on; \<open>KeyboardInterrupt\<close> and \<open>SystemExit\<close> are not an \<open>Exception\<close> and
  escape.
\<close>

fun fetch_loop :: "metadata_class \<Rightarrow> (nat \<times> archiver) list \<Rightarrow> metadata \<Rightarrow> metadata run" where
  "fetch_loop cls [] result = ([], Inr result)"
| "fetch_loop cls ((i, a) # as) result =
     emit (Download i result)
       (case download a result of
          Inl Exception \<Rightarrow> fetch_loop cls as result
        | Inl KeyboardInterrupt \<Rightarrow> ([], Inl (KeyboardInterrupt, result))
        | Inl SystemExit \<Rightarrow> ([], Inl (SystemExit, result))
        | Inr r \<Rightarrow>
            (let result' = merge cls result r in
             if is_success cls result' then ([], Inr result')
             else fetch_loop cls as result'))"

definition fetch_stage :: "config \<Rightarrow> metadata \<Rightarrow> metadata run" where
  "fetch_stage cfg result = fetch_loop (metadata_cls cfg) (enumerate 0 (archivers cfg)) result"

text \<open>Lines 142-143: \<open>for e in self.enrichers: e.enrich(result)\<close>.\<close>

fun enrich_loop :: "(nat \<times> enricher) list \<Rightarrow> metadata \<Rightarrow> metadata run" where
  "enrich_loop [] result = ([], Inr result)"
| "enrich_loop ((i, e) # es) result =
     (case enrich e result of
        Inl err \<Rightarrow> ([Enrich i result], Inl (err, result))
      | Inr result' \<Rightarrow> emit (Enrich i result) (enrich_loop es result'))"

definition enrich_stage :: "config \<Rightarrow> metadata \<Rightarrow> metadata run" where
  "enrich_stage cfg result = enrich_loop (enumerate 0 (enrichers cfg)) result"

text \<open>
  Lines 147-156. The sink sets the locator of the object it stores, and that object is
  part of \<open>result\<close>, which the sink receives too. Each walk therefore carries the
  elements it has passed (\<open>seen\<close>, as the sink left them) and \<open>result_of\<close>, which gives
  \<open>result\<close> for the current content of the container being walked.

  \<open>s.store(x, result)\<close> for one object:
\<close>

definition store_obj :: "storage \<Rightarrow> nat \<Rightarrow> metadata \<Rightarrow> pyval \<Rightarrow> pyval run" where
  "store_obj s k result x =
     (case store s x result of
        Inl e \<Rightarrow> ([Store k x], Inl (e, result))
      | Inr loc \<Rightarrow> ([Store k x], Inr (set_locator loc x)))"

text \<open>Lines 155-156: \<open>for prop_media in prop: s.store(prop_media, result)\<close>.\<close>

fun store_each :: "storage \<Rightarrow> nat \<Rightarrow> (pyval list \<Rightarrow> metadata) \<Rightarrow> pyval list \<Rightarrow> pyval list \<Rightarrow>
    pyval list run" where
  "store_each s k result_of seen [] = ([], Inr seen)"
| "store_each s k result_of seen (x # xs) =
     (case store_obj s k (result_of (seen @ x # xs)) x of
        (t, Inl e) \<Rightarrow> (t, Inl e)
      | (t, Inr x') \<Rightarrow>
          (case store_each s k result_of (seen @ [x']) xs of (t', r) \<Rightarrow> (t @ t', r)))"

text \<open>
  Lines 152-156, the body of the loop over the property values: a Media Object is
  stored; a non-empty list whose first element is a Media Object is stored element by
  element.
\<close>

fun is_Media :: "pyval \<Rightarrow> bool" where
  "is_Media (VMedia m) = True"
| "is_Media v = False"

fun is_Media_list :: "pyval \<Rightarrow> bool" where
  "is_Media_list (VList (x # xs)) = is_Media x"
| "is_Media_list v = False"

fun elements :: "pyval \<Rightarrow> pyval list" where
  "elements (VList xs) = xs"
| "elements v = []"

definition store_prop :: "storage \<Rightarrow> nat \<Rightarrow> (pyval \<Rightarrow> metadata) \<Rightarrow> pyval \<Rightarrow> pyval run" where
  "store_prop s k result_of prop =
     bind (if is_Media prop then store_obj s k (result_of prop) prop else ([], Inr prop))
       (\<lambda>prop1.
          if is_Media_list prop1
          then bind (store_each s k (\<lambda>xs. result_of (VList xs)) [] (elements prop1))
                 (\<lambda>xs. ([], Inr (VList xs)))
          else ([], Inr prop1))"

text \<open>Line 151: \<open>for prop in m.properties.values()\<close>.\<close>

fun store_props :: "storage \<Rightarrow> nat \<Rightarrow> ((string \<times> pyval) list \<Rightarrow> metadata) \<Rightarrow>
    (string \<times> pyval) list \<Rightarrow> (string \<times> pyval) list \<Rightarrow> (string \<times> pyval) list run" where
  "store_props s k result_of seen [] = ([], Inr seen)"
| "store_props s k result_of seen ((key, prop) # rest) =
     (case store_prop s k (\<lambda>p. result_of (seen @ (key, p) # rest)) prop of
        (t, Inl e) \<Rightarrow> (t, Inl e)
      | (t, Inr prop') \<Rightarrow>
          (case store_props s k result_of (seen @ [(key, prop')]) rest of
             (t', r) \<Rightarrow> (t @ t', r)))"

text \<open>Lines 149-156, the body of the loop over \<open>result.media\<close>.\<close>

definition store_media :: "storage \<Rightarrow> nat \<Rightarrow> (media \<Rightarrow> metadata) \<Rightarrow> media \<Rightarrow> media run" where
  "store_media s k result_of m =
     (case store s (VMedia m) (result_of m) of
        Inl e \<Rightarrow> ([Store k (VMedia m)], Inl (e, result_of m))
      | Inr loc \<Rightarrow> emit (Store k (VMedia m))
          (let m1 = set_media_locator loc m in
           bind (store_props s k (\<lambda>ps. result_of (set_properties ps m1)) [] (properties m1))
             (\<lambda>ps. ([], Inr (set_properties ps m1)))))"

text \<open>Line 148: \<open>for m in result.media\<close>.\<close>

fun store_media_list :: "storage \<Rightarrow> nat \<Rightarrow> metadata \<Rightarrow> media list \<Rightarrow> media list \<Rightarrow>
    metadata run" where
  "store_media_list s k result seen [] = ([], Inr (result\<lparr>media := seen\<rparr>))"
| "store_media_list s k result seen (m # ms) =
     (case store_media s k (\<lambda>m'. result\<lparr>media := seen @ m' # ms\<rparr>) m of
        (t, Inl e) \<Rightarrow> (t, Inl e)
      | (t, Inr m') \<Rightarrow>
          (case store_media_list s k result (seen @ [m']) ms of (t', r) \<Rightarrow> (t @ t', r)))"

text \<open>Line 147: \<open>for s in self.storages\<close>.\<close>

fun store_loop :: "(nat \<times> storage) list \<Rightarrow> metadata \<Rightarrow> metadata run" where
  "store_loop [] result = ([], Inr result)"
| "store_loop ((k, s) # ss) result =
     (case store_media_list s k result [] (media result) of
        (t, Inl e) \<Rightarrow> (t, Inl e)
      | (t, Inr result') \<Rightarrow> (case store_loop ss result' of (t', r) \<Rightarrow> (t @ t', r)))"

definition store_stage :: "config \<Rightarrow> metadata \<Rightarrow> metadata run" where
  "store_stage cfg result = store_loop (enumerate 0 (storages cfg)) result"

text \<open>Lines 160-163: the summary media is stored by every sink, then attached.\<close>

fun store_final :: "(nat \<times> storage) list \<Rightarrow> metadata \<Rightarrow> media \<Rightarrow> media run" where
  "store_final [] result final = ([], Inr final)"
| "store_final ((k, s) # ss) result final =
     (case store s (VMedia final) result of
        Inl e \<Rightarrow> ([Store k (VMedia final)], Inl (e, result))
      | Inr loc \<Rightarrow> emit (Store k (VMedia final))
          (store_final ss result (set_media_locator loc final)))"

definition render_stage :: "config \<Rightarrow> metadata \<Rightarrow> metadata run" where
  "render_stage cfg result =
     (case format (formatter cfg) result of
        Inl e \<Rightarrow> ([Format result], Inl (e, result))
      | Inr None \<Rightarrow> ([Format result], Inr result)
      | Inr (Some final) \<Rightarrow> emit (Format result)
          (bind (store_final (enumerate 0 (storages cfg)) result final)
             (\<lambda>final'. ([], Inr (result\<lparr>final_media := Some final'\<rparr>)))))"

text \<open>Lines 166-168.\<close>

definition done_stage :: "config \<Rightarrow> metadata \<Rightarrow> metadata run" where
  "done_stage cfg result = bind (done_all cfg result result) (\<lambda>_. ([], Inr result))"

text \<open>Lines 126-168: what follows the cache lookup when there is no short circuit.\<close>

definition pipeline :: "config \<Rightarrow> metadata \<Rightarrow> metadata run" where
  "pipeline cfg result =
     bind (fetch_stage cfg result) (\<lambda>result.
     bind (enrich_stage cfg result) (\<lambda>result.
     bind (store_stage cfg result) (\<lambda>result.
     bind (render_stage cfg result) (\<lambda>result.
     done_stage cfg result))))"

text \<open>
  Line 119: \<open>if cached_result and not cached_result.rearchivable\<close>. \<open>archive\<close> returns
  a record and leaves the object \<open>result\<close> that it was given in some state. The two are
  the same object when the pipeline ran to its end (line 168), and differ at the short
  circuit, which returns the cached record (line 123). \<open>feed_item\<close> uses both: it returns
  the first, and its handlers pass on the second. A run of \<open>archive\<close> that returns
  therefore gives the pair of the record returned and of \<open>result\<close> as it is then.
\<close>

definition after_lookup :: "config \<Rightarrow> metadata \<Rightarrow> metadata option \<Rightarrow>
    (metadata \<times> metadata) run" where
  "after_lookup cfg result cached_result =
     (case cached_result of
        None \<Rightarrow> bind (pipeline cfg result) (\<lambda>result. ([], Inr (result, result)))
      | Some c \<Rightarrow> if truthy (metadata_cls cfg) c \<and> \<not> rearchivable c
                  then bind (short_circuit cfg result c) (\<lambda>c. ([], Inr (c, result)))
                  else bind (pipeline cfg result) (\<lambda>result. ([], Inr (result, result))))"

definition archive :: "config \<Rightarrow> metadata \<Rightarrow> (metadata \<times> metadata) run" where
  "archive cfg result =
     bind (sanitize_stage cfg result) (\<lambda>result.
     bind (rearchivable_stage cfg result) (\<lambda>result.
     bind (cache_lookup cfg result) (\<lambda>cached_result.
     after_lookup cfg result cached_result)))"

subsection \<open>The run loop\<close>

text \<open>
  Lines 75-77: \<open>with tempfile.TemporaryDirectory(...) as tmp_dir\<close>. The directory is
  made by the operating system and removed when the block is left: for one item, its
  creation gives a name or raises, and so does its clean-up.
\<close>

record tempdir =
  create :: "error + string"
  cleanup :: "error + unit"

text \<open>
  The block is left through the clean-up of the directory, whether its body returned or
  raised. When the clean-up raises, its error is the one that leaves the block: a value
  that the body was returning is lost, and an error of the body is replaced.
\<close>

definition leave_with :: "tempdir \<Rightarrow> (metadata \<times> metadata) run \<Rightarrow> (metadata \<times> metadata) run" where
  "leave_with td body =
     (case cleanup td of
        Inr _ \<Rightarrow> body
      | Inl e \<Rightarrow> (case body of
                   (t, Inr (result, item)) \<Rightarrow> (t, Inl (e, item))
                 | (t, Inl (e', item)) \<Rightarrow> (t, Inl (e, item))))"

text \<open>
  When the directory cannot be made the block is not entered, and there is nothing to
  clean up. In the block, \<open>item.set_tmp_dir(tmp_dir)\<close> and then \<open>archive(item)\<close>.
\<close>

definition with_tmp_dir :: "config \<Rightarrow> tempdir \<Rightarrow> metadata \<Rightarrow> (metadata \<times> metadata) run" where
  "with_tmp_dir cfg td item =
     (case create td of
        Inl e \<Rightarrow> ([], Inl (e, item))
      | Inr tmp \<Rightarrow> leave_with td
          (case set_tmp_dir (metadata_cls cfg) tmp item of
             Inl e \<Rightarrow> ([], Inl (e, item))
           | Inr item' \<Rightarrow> archive cfg item'))"

text \<open>
  Lines 72-85. \<open>feed_item\<close> returns what \<open>archive\<close> returned, or \<open>None\<close> after the
  handler of \<open>Exception\<close>; the handler of \<open>KeyboardInterrupt\<close> ends in \<open>exit()\<close>. An
  error that is neither passes both handlers, and an error raised by a call made inside a
  handler is not caught by anything: both leave \<open>feed_item\<close>.
\<close>

datatype item_result =
    Returned metadata
  | ReturnedNone
  | Exit
  | Uncaught error

definition feed_item :: "config \<Rightarrow> tempdir \<Rightarrow> metadata \<Rightarrow> event list \<times> item_result" where
  "feed_item cfg td item =
     (case with_tmp_dir cfg td item of
        (t, Inr (result, item')) \<Rightarrow> (t, Returned result)
      | (t, Inl (KeyboardInterrupt, item')) \<Rightarrow>
          (case notify_loop aborted Aborted (enumerate 0 (databases cfg)) item' of
             (t', Inl e) \<Rightarrow> (t @ t', Uncaught e)
           | (t', Inr _) \<Rightarrow> (t @ t', Exit))
      | (t, Inl (Exception, item')) \<Rightarrow>
          (case notify_loop failed Failed (enumerate 0 (databases cfg)) item' of
             (t', Inl e) \<Rightarrow> (t @ t', Uncaught e)
           | (t', Inr _) \<Rightarrow> (t @ t', ReturnedNone))
      | (t, Inl (SystemExit, item')) \<Rightarrow> (t, Uncaught SystemExit))"

text \<open>
  Lines 68-70: \<open>for item in self.feeder: self.feed_item(item)\<close>. The feeder is the
  list of the items it yields, each with the temporary directory of its turn. The run
  ends when the feeder is exhausted, at \<open>exit()\<close>, or with an error that nothing caught.
\<close>

datatype run_result = Exhausted | Exited | Crashed error

fun feed :: "config \<Rightarrow> (tempdir \<times> metadata) list \<Rightarrow> event list \<times> run_result" where
  "feed cfg [] = ([], Exhausted)"
| "feed cfg ((td, item) # items) =
     (case feed_item cfg td item of
        (t, Exit) \<Rightarrow> (t, Exited)
      | (t, Uncaught e) \<Rightarrow> (t, Crashed e)
      | (t, _) \<Rightarrow> (case feed cfg items of (t', r) \<Rightarrow> (t @ t', r)))"

section \<open>Vocabulary of the properties\<close>

text \<open>The method that an event is a call of.\<close>

datatype meth = M_sanitize_url | M_is_rearchivable | M_started | M_fetch | M_done
  | M_failed | M_aborted | M_download | M_enrich | M_store | M_format

fun method_of :: "event \<Rightarrow> meth" where
  "method_of (SanitizeUrl i u) = M_sanitize_url"
| "method_of (IsRearchivable i u) = M_is_rearchivable"
| "method_of (Started i r) = M_started"
| "method_of (Fetch i r) = M_fetch"
| "method_of (Done i r) = M_done"
| "method_of (Failed i r) = M_failed"
| "method_of (Aborted i r) = M_aborted"
| "method_of (Download i r) = M_download"
| "method_of (Enrich i r) = M_enrich"
| "method_of (Store i v) = M_store"
| "method_of (Format r) = M_format"

text \<open>
  The sanitizers applied one after the other, each to the output of the one before; an
  error of one of them is the result.
\<close>

definition then_sanitize :: "error + string \<Rightarrow> archiver \<Rightarrow> error + string" where
  "then_sanitize acc a = (case acc of Inl e \<Rightarrow> Inl e | Inr u \<Rightarrow> sanitize_url a u)"

definition apply_sanitizers :: "archiver list \<Rightarrow> string \<Rightarrow> error + string" where
  "apply_sanitizers as u = foldl then_sanitize (Inr u) as"

text \<open>The OR-reduction: some archiver answers \<open>True\<close> for the URL.\<close>

fun any_rearchivable :: "archiver list \<Rightarrow> string \<Rightarrow> bool" where
  "any_rearchivable [] u = False"
| "any_rearchivable (a # as) u = (is_rearchivable a u = Inr True \<or> any_rearchivable as u)"

text \<open>
  The calls of the cache lookup over \<open>n\<close> State Stores when every call returns:
  \<open>started\<close> then \<open>fetch\<close> on the first store, then on the second, and so on.
\<close>

definition interleaved :: "metadata \<Rightarrow> nat \<Rightarrow> event list" where
  "interleaved r n = concat (map (\<lambda>i. [Started i r, Fetch i r]) [0..<n])"

text \<open>
  The fetch results to merge: the records that the State Stores return for \<open>r\<close> and
  that test true, in registration order.
\<close>

definition fetch_hits :: "metadata_class \<Rightarrow> database list \<Rightarrow> metadata \<Rightarrow> metadata list" where
  "fetch_hits cls ds r =
     concat (map (\<lambda>d. case fetch d r of
                         Inr (Some l) \<Rightarrow> if truthy cls l then [l] else []
                       | _ \<Rightarrow> []) ds)"


text \<open>Line 119: the candidate tests true and its \<open>rearchivable\<close> flag is false.\<close>

definition cache_hit :: "metadata_class \<Rightarrow> metadata option \<Rightarrow> bool" where
  "cache_hit cls cached_result =
     (case cached_result of None \<Rightarrow> False | Some c \<Rightarrow> truthy cls c \<and> \<not> rearchivable c)"

text \<open>
  The download loop in the words of the spec. \<open>after_download\<close> is the item after one
  archiver: the record it returned merged in, or the item unchanged when the download
  raised. \<open>succeeds\<close>: the download returned and the item reports success after the
  merge. \<open>tried_with\<close> pairs every archiver with the item it would receive if no one
  stopped the loop; \<open>calls_made\<close> counts the archivers up to and including the first
  that succeeds (all of them when none does); \<open>download_calls\<close> are the calls made to
  the archivers of such a list, numbered from \<open>i\<close>.
\<close>

definition after_download :: "metadata_class \<Rightarrow> metadata \<Rightarrow> archiver \<Rightarrow> metadata" where
  "after_download cls r a = (case download a r of Inl e \<Rightarrow> r | Inr x \<Rightarrow> merge cls r x)"

definition succeeds :: "metadata_class \<Rightarrow> archiver \<times> metadata \<Rightarrow> bool" where
  "succeeds cls ar =
     (case download (fst ar) (snd ar) of
        Inl e \<Rightarrow> False
      | Inr x \<Rightarrow> is_success cls (merge cls (snd ar) x))"

fun tried_with :: "metadata_class \<Rightarrow> archiver list \<Rightarrow> metadata \<Rightarrow> (archiver \<times> metadata) list" where
  "tried_with cls [] r = []"
| "tried_with cls (a # as) r = (a, r) # tried_with cls as (after_download cls r a)"

definition calls_made :: "metadata_class \<Rightarrow> archiver list \<Rightarrow> metadata \<Rightarrow> nat" where
  "calls_made cls as r =
     min (length as) (Suc (length (takeWhile (\<lambda>ar. \<not> succeeds cls ar) (tried_with cls as r))))"

definition download_calls :: "nat \<Rightarrow> (archiver \<times> metadata) list \<Rightarrow> event list" where
  "download_calls i ars = map (\<lambda>p. Download (fst p) (snd (snd p))) (enumerate i ars)"

text \<open>
  The terminal calls received by the State Store at position \<open>i\<close>: \<open>done\<close>,
  \<open>failed\<close> or \<open>aborted\<close>.
\<close>

fun is_terminal :: "nat \<Rightarrow> event \<Rightarrow> bool" where
  "is_terminal i (Done j r) = (i = j)"
| "is_terminal i (Failed j r) = (i = j)"
| "is_terminal i (Aborted j r) = (i = j)"
| "is_terminal i e = False"

definition terminal_calls :: "nat \<Rightarrow> event list \<Rightarrow> event list" where
  "terminal_calls i t = filter (is_terminal i) t"


definition quiet :: "event list \<Rightarrow> bool" where
  "quiet t = (\<forall>e \<in> set t. method_of e \<notin> {M_done, M_failed, M_aborted})"


text \<open>
  The objects that STORE_MEDIA stores for one property value: the value when it is a
  Media Object, its elements when it is a list whose first element is a Media Object,
  and nothing otherwise.
\<close>

fun nested_media :: "pyval \<Rightarrow> pyval list" where
  "nested_media (VMedia m) = [VMedia m]"
| "nested_media (VList (VMedia m # xs)) = VMedia m # xs"
| "nested_media v = []"

text \<open>Every call of the sink's \<open>store\<close> returns.\<close>

definition returns :: "storage \<Rightarrow> bool" where
  "returns s = (\<forall>x r. \<exists>loc. store s x r = Inr loc)"

text \<open>
  The number of \<open>store\<close> calls that one sink makes for a Media Object of the record:
  one for the object and one for each nested object. \<open>by_sink\<close> keeps the \<open>store\<close>
  calls made to the sink at position \<open>k\<close>.
\<close>

definition store_calls :: "media \<Rightarrow> nat" where
  "store_calls m = Suc (length (concat (map (\<lambda>kp. nested_media (snd kp)) (properties m))))"

fun stored_by :: "nat \<Rightarrow> event \<Rightarrow> bool" where
  "stored_by k (Store j v) = (j = k)"
| "stored_by k e = False"

definition by_sink :: "nat \<Rightarrow> event list \<Rightarrow> event list" where
  "by_sink k t = filter (stored_by k) t"

text \<open>
  The objects that one sink is given for a Media Object of the record, in order: the
  object, then what each of its property values contributes. \<open>objects_stored\<close> reads
  from a log the objects passed to the sink at position \<open>k\<close>.
\<close>

definition objects_of :: "media \<Rightarrow> pyval list" where
  "objects_of m = VMedia m # concat (map (\<lambda>kp. nested_media (snd kp)) (properties m))"

fun stored_object :: "nat \<Rightarrow> event \<Rightarrow> pyval list" where
  "stored_object k (Store j v) = (if j = k then [v] else [])"
| "stored_object k e = []"

definition objects_stored :: "nat \<Rightarrow> event list \<Rightarrow> pyval list" where
  "objects_stored k t = concat (map (stored_object k) t)"

text \<open>
  A sink sets the storage locator of what it stores, so a later sink is given the same
  objects with other locators. \<open>strip\<close> forgets the locators, at every depth.
\<close>

primrec strip_media :: "media \<Rightarrow> media" and strip :: "pyval \<Rightarrow> pyval" where
  "strip_media (Media f l ps) = Media f None (map (map_prod id strip) ps)"
| "strip (Scalar c) = Scalar c"
| "strip (VMedia m) = VMedia (strip_media m)"
| "strip (VList xs) = VList (map strip xs)"

section \<open>Plugins and records for the concrete runs\<close>

definition plain_item :: "string \<Rightarrow> metadata" where
  "plain_item u = \<lparr>url = u, status = ''no archiver'', rearchivable = False, meta = [],
     media = [], final_media = None, tmp_dir = None\<rparr>"

definition simple_cls :: metadata_class where
  "simple_cls = \<lparr>new_metadata = plain_item [],
     merge = (\<lambda>l r. l\<lparr>status := status r, rearchivable := rearchivable l \<or> rearchivable r,
                       media := media l @ media r\<rparr>),
     truthy = (\<lambda>r. True),
     is_success = (\<lambda>r. status r = ''success''),
     set_tmp_dir = (\<lambda>d r. Inr (r\<lparr>tmp_dir := Some d\<rparr>))\<rparr>"

definition tmp :: tempdir where
  "tmp = \<lparr>create = Inr ''t'', cleanup = Inr ()\<rparr>"

definition quiet_db :: database where
  "quiet_db = \<lparr>started = (\<lambda>r. Inr ()), fetch = (\<lambda>r. Inr None), done_db = (\<lambda>r. Inr ()),
     failed = (\<lambda>r. Inr ()), aborted = (\<lambda>r. Inr ())\<rparr>"

definition slash_archiver :: archiver where
  "slash_archiver = \<lparr>name = ''slash'', sanitize_url = (\<lambda>u. Inr (u @ ''/'')),
     is_rearchivable = (\<lambda>u. Inr False), download = (\<lambda>r. Inl Exception)\<rparr>"

definition no_formatter :: formatter where
  "no_formatter = \<lparr>format = (\<lambda>r. Inr None)\<rparr>"

definition base_cfg :: config where
  "base_cfg = \<lparr>metadata_cls = simple_cls, formatter = no_formatter, enrichers = [],
     archivers = [], databases = [], storages = []\<rparr>"

definition seen_before :: metadata where
  "seen_before = (plain_item [])\<lparr>status := ''success''\<rparr>"

definition hit_db :: database where
  "hit_db = quiet_db\<lparr>fetch := (\<lambda>r. Inr (Some seen_before))\<rparr>"

definition hit_cfg :: config where
  "hit_cfg = base_cfg\<lparr>archivers := [slash_archiver], databases := [quiet_db, hit_db]\<rparr>"

definition sanitized_item :: metadata where
  "sanitized_item = set_meta ''original_url'' ''a'' (plain_item ''a/'')"


definition flagged_item :: metadata where
  "flagged_item = (plain_item ''a'')\<lparr>rearchivable := True\<rparr>"

definition tweet_archiver :: archiver where
  "tweet_archiver = \<lparr>name = ''tweet'', sanitize_url = (\<lambda>u. Inr u),
     is_rearchivable = (\<lambda>u. Inr True),
     download = (\<lambda>r. Inr ((plain_item (url r))\<lparr>status := ''success''\<rparr>))\<rparr>"

definition tweet_cfg :: config where
  "tweet_cfg = base_cfg\<lparr>archivers := [slash_archiver, tweet_archiver]\<rparr>"

definition nomatch_archiver :: archiver where
  "nomatch_archiver = \<lparr>name = ''nomatch'', sanitize_url = (\<lambda>u. Inr u),
     is_rearchivable = (\<lambda>u. Inr False), download = (\<lambda>r. Inr (plain_item (url r)))\<rparr>"

definition interrupted_archiver :: archiver where
  "interrupted_archiver = \<lparr>name = ''interrupted'', sanitize_url = (\<lambda>u. Inr u),
     is_rearchivable = (\<lambda>u. Inr False), download = (\<lambda>r. Inl KeyboardInterrupt)\<rparr>"

definition three_cfg :: config where
  "three_cfg = base_cfg\<lparr>archivers :=
     [slash_archiver, nomatch_archiver, tweet_archiver, nomatch_archiver]\<rparr>"

definition archived_item :: metadata where
  "archived_item = (plain_item ''a'')\<lparr>status := ''success''\<rparr>"

definition interrupt_cfg :: config where
  "interrupt_cfg = base_cfg\<lparr>archivers := [nomatch_archiver, interrupted_archiver, nomatch_archiver],
     databases := [quiet_db, quiet_db]\<rparr>"

definition failing_enricher :: enricher where
  "failing_enricher = \<lparr>enrich = (\<lambda>r. Inl Exception)\<rparr>"

definition failing_cfg :: config where
  "failing_cfg = base_cfg\<lparr>enrichers := [failing_enricher], databases := [quiet_db, quiet_db]\<rparr>"

definition tmp_item :: metadata where
  "tmp_item = (plain_item ''a'')\<lparr>tmp_dir := Some ''t''\<rparr>"


definition pre_download_calls :: "metadata \<Rightarrow> event list" where
  "pre_download_calls r =
     [SanitizeUrl 0 ''a'', SanitizeUrl 1 ''a'', SanitizeUrl 2 ''a'',
      IsRearchivable 0 ''a'', IsRearchivable 1 ''a'', IsRearchivable 2 ''a'',
      Started 0 r, Fetch 0 r, Started 1 r, Fetch 1 r]"

definition disk :: storage where
  "disk = \<lparr>store = (\<lambda>x r. Inr ''cdn'')\<rparr>"

definition thumb :: media where
  "thumb = Media ''thumb.jpg'' None [(''small'', VMedia (Media ''tiny.jpg'' None []))]"

definition frame1 :: media where
  "frame1 = Media ''f1.jpg'' None []"

definition frame2 :: media where
  "frame2 = Media ''f2.jpg'' None [(''crop'', VMedia (Media ''crop.jpg'' None []))]"

definition video :: media where
  "video = Media ''v.mp4'' None
     [(''duration'', Scalar ''12''), (''thumbnail'', VMedia thumb),
      (''frames'', VList [VMedia frame1, VMedia frame2])]"

definition video_item :: "media \<Rightarrow> metadata" where
  "video_item m = (plain_item ''a'')\<lparr>media := [m]\<rparr>"

definition two_disk_cfg :: config where
  "two_disk_cfg = base_cfg\<lparr>storages := [disk, disk]\<rparr>"

definition raising_hit_cfg :: config where
  "raising_hit_cfg = base_cfg\<lparr>archivers := [slash_archiver],
     databases := [hit_db\<lparr>done_db := (\<lambda>r. Inl Exception)\<rparr>, quiet_db]\<rparr>"

definition dirty_tmp :: tempdir where
  "dirty_tmp = \<lparr>create = Inr ''t'', cleanup = Inl Exception\<rparr>"

definition raising_failed_cfg :: config where
  "raising_failed_cfg =
     failing_cfg\<lparr>databases := [quiet_db\<lparr>failed := (\<lambda>r. Inl Exception)\<rparr>, quiet_db]\<rparr>"

definition raising_aborted_cfg :: config where
  "raising_aborted_cfg =
     interrupt_cfg\<lparr>databases := [quiet_db\<lparr>aborted := (\<lambda>r. Inl Exception)\<rparr>, quiet_db]\<rparr>"








definition gallery :: media where
  "gallery = Media ''g.html'' None [(''frames'', VList [VMedia frame1, Scalar ''x''])]"

definition memo :: media where
  "memo = Media ''n.txt'' None [(''lines'', VList [Scalar ''x'', VMedia frame1])]"

section \<open>Lemmas\<close>

subsection \<open>Runs\<close>

lemma bind_Inr [simp]: "bind (t, Inr x) f = (t @ fst (f x), snd (f x))"
  by (simp add: bind_def split: prod.splits)

lemma bind_Inl [simp]: "bind (t, Inl e) f = (t, Inl e)"
  by (simp add: bind_def)

lemma fst_bind: "fst (bind m f) = (case snd m of Inl e \<Rightarrow> fst m | Inr x \<Rightarrow> fst m @ fst (f x))"
  by (cases m) (auto split: sum.splits)

lemma snd_bind: "snd (bind m f) = (case snd m of Inl e \<Rightarrow> Inl e | Inr x \<Rightarrow> snd (f x))"
  by (cases m) (auto split: sum.splits)

lemma fst_emit [simp]: "fst (emit ev m) = ev # fst m"
  by (simp add: emit_def)

lemma snd_emit [simp]: "snd (emit ev m) = snd m"
  by (simp add: emit_def)

lemma emit_pair [simp]: "emit ev (t, r) = (ev # t, r)"
  by (simp add: emit_def)

lemma within_Inr [simp]: "within r (t, Inr x) = (t, Inr x)"
  by (simp add: within_def)

lemma within_Inl [simp]: "within r (t, Inl e) = (t, Inl (e, r))"
  by (simp add: within_def)

lemma fst_within [simp]: "fst (within r m) = fst m"
  by (cases m) (auto simp: within_def split: sum.splits)

subsection \<open>The notification loops\<close>

lemma map_enumerate_index:
  "map (\<lambda>p. f (fst p)) (enumerate i ds) = map f [i..<i + length ds]"
proof -
  have "map (\<lambda>p. f (fst p)) xs = map f (map fst xs)" for xs :: "(nat \<times> 'b) list"
    by (induction xs) simp_all
  from this [of "enumerate i ds"] show ?thesis
    by (simp only: map_fst_enumerate)
qed

lemma notify_loop_all_return:
  "\<forall>p \<in> set xs. call (snd p) x = Inr () \<Longrightarrow>
   notify_loop call ev xs x = (map (\<lambda>p. ev (fst p) x) xs, Inr ())"
  by (induction xs) auto

lemma notify_loop_prefix:
  "\<exists>k \<le> length xs. fst (notify_loop call ev xs x) = map (\<lambda>p. ev (fst p) x) (take k xs)"
proof (induction xs)
  case Nil
  then show ?case by simp
next
  case (Cons p xs)
  obtain i d where p: "p = (i, d)" by (cases p)
  show ?case
  proof (cases "call d x")
    case (Inl e)
    with p have "fst (notify_loop call ev (p # xs) x) = map (\<lambda>p. ev (fst p) x) (take 1 (p # xs))"
      by simp
    then show ?thesis
      by (metis One_nat_def Suc_leI length_Cons zero_less_Suc)
  next
    case (Inr u)
    from Cons.IH obtain k where k: "k \<le> length xs"
      "fst (notify_loop call ev xs x) = map (\<lambda>p. ev (fst p) x) (take k xs)"
      by blast
    with Inr p have "fst (notify_loop call ev (p # xs) x) =
        map (\<lambda>p. ev (fst p) x) (take (Suc k) (p # xs))"
      by (cases "notify_loop call ev xs x") simp
    with k(1) show ?thesis
      by (metis Suc_le_mono length_Cons)
  qed
qed

lemma method_notify_loop:
  assumes "\<And>j y. method_of (ev j y) = m"
  shows "e \<in> set (fst (notify_loop call ev xs x)) \<Longrightarrow> method_of e = m"
  using assms
  by (induction xs arbitrary: e) (auto split: sum.splits prod.splits)

subsection \<open>Which methods a stage calls\<close>

lemma methods_sanitize_loop:
  "e \<in> set (fst (sanitize_loop xs r u)) \<Longrightarrow> method_of e = M_sanitize_url"
  by (induction xs arbitrary: u) (auto split: sum.splits)

lemma methods_sanitize_stage:
  "e \<in> set (fst (sanitize_stage cfg r)) \<Longrightarrow> method_of e = M_sanitize_url"
  using methods_sanitize_loop [of e "enumerate 0 (archivers cfg)" r "url r"]
  by (auto simp: sanitize_stage_def Let_def fst_bind split: sum.splits)

lemma methods_rearchivable_loop:
  "e \<in> set (fst (rearchivable_loop xs u r)) \<Longrightarrow> method_of e = M_is_rearchivable"
  by (induction xs arbitrary: r) (auto split: sum.splits)

lemma methods_rearchivable_stage:
  "e \<in> set (fst (rearchivable_stage cfg r)) \<Longrightarrow> method_of e = M_is_rearchivable"
  by (simp add: rearchivable_stage_def methods_rearchivable_loop)

lemma methods_cache_loop:
  "e \<in> set (fst (cache_loop cls xs r c)) \<Longrightarrow> method_of e \<in> {M_started, M_fetch}"
  by (induction xs arbitrary: c) (auto split: sum.splits)

lemma methods_cache_lookup:
  "e \<in> set (fst (cache_lookup cfg r)) \<Longrightarrow> method_of e \<in> {M_started, M_fetch}"
  unfolding cache_lookup_def by (rule methods_cache_loop)















lemma methods_done_all:
  "e \<in> set (fst (done_all cfg r x)) \<Longrightarrow> method_of e = M_done"
  unfolding done_all_def fst_within
  by (rule method_notify_loop [where ev = Done]) simp_all

lemma methods_done_stage:
  "e \<in> set (fst (done_stage cfg r)) \<Longrightarrow> method_of e = M_done"
  by (auto simp: done_stage_def fst_bind split: sum.splits dest: methods_done_all)

lemma methods_short_circuit:
  "e \<in> set (fst (short_circuit cfg r c)) \<Longrightarrow> method_of e = M_done"
  by (auto simp: short_circuit_def fst_bind split: sum.splits dest: methods_done_all)

subsection \<open>The stages before the download loop\<close>

lemma take_enumerate: "take k (enumerate i ds) = enumerate i (take k ds)"
proof (induction ds arbitrary: i k)
  case Nil
  then show ?case by simp
next
  case (Cons d ds)
  then show ?case by (cases k) simp_all
qed

lemma notify_loop_prefix_index:
  "\<exists>k \<le> length ds. fst (notify_loop call ev (enumerate i ds) x) = map (\<lambda>j. ev j x) [i..<i + k]"
proof -
  from notify_loop_prefix [of "enumerate i ds" call ev x]
  obtain k where k: "k \<le> length ds"
    and t: "fst (notify_loop call ev (enumerate i ds) x) =
      map (\<lambda>p. ev (fst p) x) (take k (enumerate i ds))"
    by auto
  have "map (\<lambda>p. ev (fst p) x) (take k (enumerate i ds)) = map (\<lambda>j. ev j x) [i..<i + k]"
    using k map_enumerate_index [of "\<lambda>j. ev j x" i "take k ds"] by (simp add: take_enumerate min_def)
  with k t show ?thesis by auto
qed

lemma notify_loop_all_return_index:
  assumes "\<forall>d \<in> set ds. call d x = Inr ()"
  shows "notify_loop call ev (enumerate i ds) x = (map (\<lambda>j. ev j x) [i..<i + length ds], Inr ())"
proof -
  have "\<forall>p \<in> set (enumerate i ds). call (snd p) x = Inr ()"
    using assms by (auto simp: in_set_enumerate_eq)
  with notify_loop_all_return [where call = call and x = x and ev = ev
      and xs = "enumerate i ds"] show ?thesis
    using map_enumerate_index [of "\<lambda>j. ev j x" i ds] by simp
qed

lemma archive_after_lookup:
  assumes "sanitize_stage cfg item = (t1, Inr r1)"
    and "rearchivable_stage cfg r1 = (t2, Inr r2)"
    and "cache_lookup cfg r2 = (t3, Inr cached)"
  shows "archive cfg item =
    (t1 @ t2 @ t3 @ fst (after_lookup cfg r2 cached), snd (after_lookup cfg r2 cached))"
  using assms by (simp add: archive_def)




lemma fetch_hits_Nil [simp]: "fetch_hits cls [] r = []"
  by (simp add: fetch_hits_def)




lemma any_rearchivable_iff:
  "any_rearchivable as u \<longleftrightarrow> (\<exists>a \<in> set as. is_rearchivable a u = Inr True)"
  by (induction as) auto

lemma rearchivable_loop_returns:
  "rearchivable_loop xs u r = (t, Inr r') \<Longrightarrow>
     r' = r\<lparr>rearchivable := rearchivable r \<or> any_rearchivable (map snd xs) u\<rparr> \<and>
     t = map (\<lambda>p. IsRearchivable (fst p) u) xs"
proof (induction xs arbitrary: r t)
  case Nil
  then show ?case by simp
next
  case (Cons p xs)
  obtain i a where p: "p = (i, a)" by (cases p)
  from Cons.prems p obtain b where b: "is_rearchivable a u = Inr b"
    by (cases "is_rearchivable a u") auto
  let ?r = "r\<lparr>rearchivable := rearchivable r \<or> b\<rparr>"
  obtain t0 where t0: "rearchivable_loop xs u ?r = (t0, Inr r')" and t: "t = IsRearchivable i u # t0"
    using Cons.prems p b by (cases "rearchivable_loop xs u ?r") auto
  from Cons.IH [OF t0] t p b show ?case by auto
qed

lemma foldl_then_sanitize_Inl: "foldl then_sanitize (Inl e) as = Inl e"
  by (induction as) (simp_all add: then_sanitize_def)

lemma apply_sanitizers_Nil: "apply_sanitizers [] u = Inr u"
  by (simp add: apply_sanitizers_def)

lemma apply_sanitizers_Cons:
  "apply_sanitizers (a # as) u =
     (case sanitize_url a u of Inl e \<Rightarrow> Inl e | Inr u' \<Rightarrow> apply_sanitizers as u')"
  by (simp add: apply_sanitizers_def then_sanitize_def foldl_then_sanitize_Inl split: sum.splits)

lemma snd_sanitize_loop:
  "snd (sanitize_loop (enumerate i as) r u) =
     (case apply_sanitizers as u of Inl e \<Rightarrow> Inl (e, r) | Inr u' \<Rightarrow> Inr u')"
  by (induction as arbitrary: i u)
     (simp_all add: apply_sanitizers_Cons apply_sanitizers_Nil split: sum.splits)

lemma length_sanitize_loop:
  "snd (sanitize_loop (enumerate i as) r u) = Inr u' \<Longrightarrow>
     length (fst (sanitize_loop (enumerate i as) r u)) = length as"
  by (induction as arbitrary: i u) (auto split: sum.splits)

lemma nth_sanitize_loop:
  "snd (sanitize_loop (enumerate i as) r u) = Inr u' \<Longrightarrow> j < length as \<Longrightarrow>
     \<exists>v. apply_sanitizers (take j as) u = Inr v \<and>
       fst (sanitize_loop (enumerate i as) r u) ! j = SanitizeUrl (i + j) v"
proof (induction as arbitrary: i u j)
  case Nil
  then show ?case by simp
next
  case (Cons a as)
  show ?case
  proof (cases j)
    case 0
    with Cons.prems show ?thesis
      by (auto simp: apply_sanitizers_Nil split: sum.splits)
  next
    case (Suc j')
    with Cons.prems Cons.IH [of "Suc i" _ j'] show ?thesis
      by (auto simp: apply_sanitizers_Cons split: sum.splits)
  qed
qed

subsection \<open>The download loop\<close>

lemma length_tried_with [simp]: "length (tried_with cls as r) = length as"
  by (induction as arbitrary: r) simp_all

lemma calls_made_Nil [simp]: "calls_made cls [] r = 0"
  by (simp add: calls_made_def)

lemma calls_made_Cons:
  "calls_made cls (a # as) r =
     (if succeeds cls (a, r) then 1 else Suc (calls_made cls as (after_download cls r a)))"
  by (simp add: calls_made_def)

lemma download_calls_Nil [simp]: "download_calls i [] = []"
  by (simp add: download_calls_def)

lemma download_calls_Cons [simp]:
  "download_calls i ((a, r) # ars) = Download i r # download_calls (Suc i) ars"
  by (simp add: download_calls_def)

lemma fetch_loop_refines:
  assumes "\<forall>a \<in> set as. \<forall>x.
      download a x \<noteq> Inl KeyboardInterrupt \<and> download a x \<noteq> Inl SystemExit"
  shows "fetch_loop cls (enumerate i as) r =
    (download_calls i (take (calls_made cls as r) (tried_with cls as r)),
     Inr (foldl (after_download cls) r (take (calls_made cls as r) as)))"
  using assms
proof (induction as arbitrary: i r)
  case Nil
  then show ?case by simp
next
  case (Cons a as)
  have ni: "download a r \<noteq> Inl KeyboardInterrupt" "download a r \<noteq> Inl SystemExit"
    using Cons.prems by simp_all
  have ih: "fetch_loop cls (enumerate (Suc i) as) r' =
    (download_calls (Suc i) (take (calls_made cls as r') (tried_with cls as r')),
     Inr (foldl (after_download cls) r' (take (calls_made cls as r') as)))" for r'
    using Cons.IH [of "Suc i" r'] Cons.prems by simp
  show ?case
  proof (cases "download a r")
    case (Inl e)
    with ni have e: "e = Exception" by (cases e) auto
    have "\<not> succeeds cls (a, r)" and "after_download cls r a = r"
      using Inl by (simp_all add: succeeds_def after_download_def)
    with Inl e ih [of r] show ?thesis
      by (simp add: calls_made_Cons)
  next
    case (Inr x)
    show ?thesis
    proof (cases "is_success cls (merge cls r x)")
      case True
      then have "succeeds cls (a, r)" using Inr by (simp add: succeeds_def)
      with Inr True show ?thesis
        by (simp add: calls_made_Cons after_download_def Let_def)
    next
      case False
      then have "\<not> succeeds cls (a, r)" and "after_download cls r a = merge cls r x"
        using Inr by (simp_all add: succeeds_def after_download_def)
      with Inr False ih [of "merge cls r x"] show ?thesis
        by (simp add: calls_made_Cons Let_def)
    qed
  qed
qed

lemma stops_only_on_success:
  "calls_made cls as r < length as \<Longrightarrow>
     is_success cls (foldl (after_download cls) r (take (calls_made cls as r) as))"
proof (induction as arbitrary: r)
  case Nil
  then show ?case by simp
next
  case (Cons a as)
  show ?case
  proof (cases "succeeds cls (a, r)")
    case True
    then show ?thesis
      by (auto simp: calls_made_Cons succeeds_def after_download_def split: sum.splits)
  next
    case False
    with Cons.prems have "calls_made cls as (after_download cls r a) < length as"
      by (simp add: calls_made_Cons)
    from Cons.IH [OF this] False show ?thesis
      by (simp add: calls_made_Cons)
  qed
qed

lemma exhausted_without_success:
  "\<not> is_success cls r \<Longrightarrow> \<forall>ar \<in> set (tried_with cls as r). \<not> succeeds cls ar \<Longrightarrow>
     calls_made cls as r = length as \<and> \<not> is_success cls (foldl (after_download cls) r as)"
proof (induction as arbitrary: r)
  case Nil
  then show ?case by simp
next
  case (Cons a as)
  from Cons.prems have ns: "\<not> succeeds cls (a, r)" by simp
  with Cons.prems(1) have "\<not> is_success cls (after_download cls r a)"
    by (auto simp: succeeds_def after_download_def split: sum.splits)
  from Cons.IH [OF this] Cons.prems(2) ns show ?case
    by (simp add: calls_made_Cons)
qed

lemma pipeline_proceeds:
  assumes "fetch_stage cfg r = (t, Inr r')"
  shows "\<exists>rest. fst (pipeline cfg r) = t @ fst (enrich_stage cfg r') @ rest"
proof (cases "enrich_stage cfg r'")
  case (Pair te re)
  show ?thesis
  proof (cases re)
    case (Inl e)
    with Pair assms show ?thesis by (simp add: pipeline_def)
  next
    case (Inr r'')
    with Pair assms show ?thesis by (simp add: pipeline_def)
  qed
qed

lemma after_lookup_no_hit:
  "\<not> cache_hit (metadata_cls cfg) cached \<Longrightarrow>
     after_lookup cfg r cached = bind (pipeline cfg r) (\<lambda>result. ([], Inr (result, result)))"
  by (auto simp: cache_hit_def after_lookup_def split: option.splits)

lemma after_lookup_hit:
  assumes "truthy (metadata_cls cfg) c" and "\<not> rearchivable c"
  shows "after_lookup cfg r (Some c) =
    (fst (notify_loop done_db Done (enumerate 0 (databases cfg)) c),
     case snd (notify_loop done_db Done (enumerate 0 (databases cfg)) c) of
       Inl e \<Rightarrow> Inl (e, r) | Inr u \<Rightarrow> Inr (c, r))"
proof (cases "notify_loop done_db Done (enumerate 0 (databases cfg)) c")
  case (Pair t res)
  with assms show ?thesis
    by (cases res) (simp_all add: after_lookup_def short_circuit_def done_all_def)
qed

lemma tried_with_append:
  "tried_with cls (as @ bs) r =
     tried_with cls as r @ tried_with cls bs (foldl (after_download cls) r as)"
  by (induction as arbitrary: r) simp_all

lemma download_calls_append:
  "download_calls i (xs @ ys) = download_calls i xs @ download_calls (i + length xs) ys"
  by (simp add: download_calls_def enumerate_append_eq)

lemma fetch_loop_interrupted:
  assumes "\<forall>ar \<in> set (tried_with cls before r).
      \<not> succeeds cls ar \<and> download (fst ar) (snd ar) \<noteq> Inl KeyboardInterrupt \<and>
      download (fst ar) (snd ar) \<noteq> Inl SystemExit"
    and "download a (foldl (after_download cls) r before) = Inl KeyboardInterrupt"
  shows "fetch_loop cls (enumerate i (before @ a # rest)) r =
    (download_calls i (tried_with cls (before @ [a]) r),
     Inl (KeyboardInterrupt, foldl (after_download cls) r before))"
  using assms
proof (induction before arbitrary: i r)
  case Nil
  then show ?case by simp
next
  case (Cons b before)
  from Cons.prems(1) have ns: "\<not> succeeds cls (b, r)"
    and ni: "download b r \<noteq> Inl KeyboardInterrupt" "download b r \<noteq> Inl SystemExit"
    and rest: "\<forall>ar \<in> set (tried_with cls before (after_download cls r b)).
      \<not> succeeds cls ar \<and> download (fst ar) (snd ar) \<noteq> Inl KeyboardInterrupt \<and>
      download (fst ar) (snd ar) \<noteq> Inl SystemExit"
    by simp_all
  have ih: "fetch_loop cls (enumerate (Suc i) (before @ a # rest)) (after_download cls r b) =
    (download_calls (Suc i) (tried_with cls (before @ [a]) (after_download cls r b)),
     Inl (KeyboardInterrupt, foldl (after_download cls) (after_download cls r b) before))"
    using Cons.IH [OF rest, of "Suc i"] Cons.prems(2) by simp
  show ?case
  proof (cases "download b r")
    case (Inl e)
    with ni have "e = Exception" by (cases e) auto
    moreover have "after_download cls r b = r" using Inl by (simp add: after_download_def)
    ultimately show ?thesis using Inl ih by simp
  next
    case (Inr x)
    with ns have "\<not> is_success cls (merge cls r x)" by (simp add: succeeds_def)
    moreover have "after_download cls r b = merge cls r x"
      using Inr by (simp add: after_download_def)
    ultimately show ?thesis using Inr ih by (simp add: Let_def)
  qed
qed

lemma pipeline_fetch_error:
  "fetch_stage cfg r = (t, Inl e) \<Longrightarrow> pipeline cfg r = (t, Inl e)"
  by (simp add: pipeline_def)

subsection \<open>The run loop\<close>

lemma with_tmp_dir_archive:
  "create td = Inr d \<Longrightarrow> set_tmp_dir (metadata_cls cfg) d item = Inr item' \<Longrightarrow>
     cleanup td = Inr () \<Longrightarrow> with_tmp_dir cfg td item = archive cfg item'"
  by (simp add: with_tmp_dir_def leave_with_def)

lemma with_tmp_dir_dirty:
  assumes "create td = Inr d" and "set_tmp_dir (metadata_cls cfg) d item = Inr item'"
    and "cleanup td = Inl e"
  shows "with_tmp_dir cfg td item =
    (fst (archive cfg item'),
     Inl (e, case snd (archive cfg item') of Inl ex \<Rightarrow> snd ex | Inr yx \<Rightarrow> snd yx))"
proof (cases "archive cfg item'")
  case (Pair t res)
  with assms show ?thesis
    by (cases res) (auto simp: with_tmp_dir_def leave_with_def)
qed



lemma feed_item_interrupted:
  "with_tmp_dir cfg td item = (t, Inl (KeyboardInterrupt, x)) \<Longrightarrow>
     feed_item cfg td item =
       (t @ fst (notify_loop aborted Aborted (enumerate 0 (databases cfg)) x),
        case snd (notify_loop aborted Aborted (enumerate 0 (databases cfg)) x) of
          Inl e \<Rightarrow> Uncaught e | Inr u \<Rightarrow> Exit)"
  by (cases "notify_loop aborted Aborted (enumerate 0 (databases cfg)) x")
     (auto simp: feed_item_def split: sum.splits)

lemma feed_item_failed:
  "with_tmp_dir cfg td item = (t, Inl (Exception, x)) \<Longrightarrow>
     feed_item cfg td item =
       (t @ fst (notify_loop failed Failed (enumerate 0 (databases cfg)) x),
        case snd (notify_loop failed Failed (enumerate 0 (databases cfg)) x) of
          Inl e \<Rightarrow> Uncaught e | Inr u \<Rightarrow> ReturnedNone)"
  by (cases "notify_loop failed Failed (enumerate 0 (databases cfg)) x")
     (auto simp: feed_item_def split: sum.splits)

lemma feed_item_uncaught:
  "with_tmp_dir cfg td item = (t, Inl (SystemExit, x)) \<Longrightarrow>
     feed_item cfg td item = (t, Uncaught SystemExit)"
  by (simp add: feed_item_def)

lemma feed_stops:
  "snd (feed_item cfg td item) = Exit \<or> (\<exists>e. snd (feed_item cfg td item) = Uncaught e) \<Longrightarrow>
     fst (feed cfg ((td, item) # items)) = fst (feed_item cfg td item) \<and>
     snd (feed cfg ((td, item) # items)) \<noteq> Exhausted"
  by (cases "feed_item cfg td item") (auto split: item_result.splits)

lemma feed_exits:
  "feed_item cfg td item = (t, Exit) \<Longrightarrow> feed cfg ((td, item) # items) = (t, Exited)"
  by simp

lemma feed_crashes:
  "feed_item cfg td item = (t, Uncaught e) \<Longrightarrow> feed cfg ((td, item) # items) = (t, Crashed e)"
  by simp


lemma interrupted_item_stops_run:
  assumes "with_tmp_dir cfg td item = (t, Inl (KeyboardInterrupt, x))"
  shows "(\<exists>k \<le> length (databases cfg).
        fst (feed cfg ((td, item) # items)) = t @ map (\<lambda>i. Aborted i x) [0..<k]) \<and>
    snd (feed cfg ((td, item) # items)) \<noteq> Exhausted \<and>
    ((\<forall>d \<in> set (databases cfg). aborted d x = Inr ()) \<longrightarrow>
       feed_item cfg td item =
         (t @ map (\<lambda>i. Aborted i x) [0..<length (databases cfg)], Exit) \<and>
       feed cfg ((td, item) # items) =
         (t @ map (\<lambda>i. Aborted i x) [0..<length (databases cfg)], Exited))"
proof -
  let ?n = "notify_loop aborted Aborted (enumerate 0 (databases cfg)) x"
  note fi = feed_item_interrupted [OF assms]
  have stop: "snd (feed_item cfg td item) = Exit \<or> (\<exists>e. snd (feed_item cfg td item) = Uncaught e)"
    using fi by (auto split: sum.splits)
  from feed_stops [OF stop, of items]
  have f: "fst (feed cfg ((td, item) # items)) = t @ fst ?n"
    and 2: "snd (feed cfg ((td, item) # items)) \<noteq> Exhausted"
    using fi by simp_all
  have 1: "\<exists>k \<le> length (databases cfg).
        fst (feed cfg ((td, item) # items)) = t @ map (\<lambda>i. Aborted i x) [0..<k]"
    using notify_loop_prefix_index [of "databases cfg" aborted Aborted 0 x] f by auto
  have 3: "feed_item cfg td item =
         (t @ map (\<lambda>i. Aborted i x) [0..<length (databases cfg)], Exit) \<and>
       feed cfg ((td, item) # items) =
         (t @ map (\<lambda>i. Aborted i x) [0..<length (databases cfg)], Exited)"
    if "\<forall>d \<in> set (databases cfg). aborted d x = Inr ()"
  proof -
    have "?n = (map (\<lambda>i. Aborted i x) [0..<length (databases cfg)], Inr ())"
      using notify_loop_all_return_index [where call = aborted and x = x and ev = Aborted
        and ds = "databases cfg" and i = 0] that by simp
    with fi have "feed_item cfg td item =
         (t @ map (\<lambda>i. Aborted i x) [0..<length (databases cfg)], Exit)"
      by simp
    with feed_exits [OF this, of items] show ?thesis by simp
  qed
  from 1 2 3 show ?thesis by blast
qed

lemma failed_item_continues:
  assumes "with_tmp_dir cfg td item = (t, Inl (Exception, x))"
    and "\<forall>d \<in> set (databases cfg). failed d x = Inr ()"
  shows "feed_item cfg td item =
      (t @ map (\<lambda>i. Failed i x) [0..<length (databases cfg)], ReturnedNone) \<and>
    feed cfg ((td, item) # items) =
      (t @ map (\<lambda>i. Failed i x) [0..<length (databases cfg)] @ fst (feed cfg items),
       snd (feed cfg items))"
proof -
  let ?n = "notify_loop failed Failed (enumerate 0 (databases cfg)) x"
  have "?n = (map (\<lambda>i. Failed i x) [0..<length (databases cfg)], Inr ())"
    using notify_loop_all_return_index [where call = failed and x = x and ev = Failed
      and ds = "databases cfg" and i = 0] assms(2) by simp
  with feed_item_failed [OF assms(1)] have fi: "feed_item cfg td item =
      (t @ map (\<lambda>i. Failed i x) [0..<length (databases cfg)], ReturnedNone)"
    by simp
  then show ?thesis by (cases "feed cfg items") simp
qed

lemma failed_item_calls:
  assumes "with_tmp_dir cfg td item = (t, Inl (Exception, x))"
  shows "\<exists>k \<le> length (databases cfg).
    fst (feed_item cfg td item) = t @ map (\<lambda>i. Failed i x) [0..<k]"
  using notify_loop_prefix_index [of "databases cfg" failed Failed 0 x]
    feed_item_failed [OF assms]
  by auto

subsection \<open>Terminal calls\<close>

lemma terminal_calls_append [simp]:
  "terminal_calls i (a @ b) = terminal_calls i a @ terminal_calls i b"
  by (simp add: terminal_calls_def)


lemma quiet_append [simp]: "quiet (a @ b) \<longleftrightarrow> quiet a \<and> quiet b"
  by (auto simp: quiet_def)

























subsection \<open>Storing media\<close>

lemma store_obj_returns:
  "returns s \<Longrightarrow> \<exists>x'. store_obj s k r x = ([Store k x], Inr x')"
  unfolding returns_def store_obj_def
  by (metis (mono_tags, lifting) sum.simps(6))

lemma store_each_returns:
  "returns s \<Longrightarrow> \<exists>ys. store_each s k f seen xs = (map (Store k) xs, Inr ys)"
proof (induction xs arbitrary: seen)
  case Nil
  then show ?case by simp
next
  case (Cons x xs)
  from store_obj_returns [OF Cons.prems] obtain x' where
    "store_obj s k (f (seen @ x # xs)) x = ([Store k x], Inr x')" by blast
  moreover from Cons.IH [OF Cons.prems] obtain ys where
    "store_each s k f (seen @ [x']) xs = (map (Store k) xs, Inr ys)" by blast
  ultimately show ?case by simp
qed

lemma store_each_prefix:
  "\<exists>j. fst (store_each s k f seen xs) = map (Store k) (take j xs)"
proof (induction xs arbitrary: seen)
  case Nil
  then show ?case by simp
next
  case (Cons x xs)
  show ?case
  proof (cases "store s x (f (seen @ x # xs))")
    case (Inl e)
    then have "fst (store_each s k f seen (x # xs)) = map (Store k) (take 1 (x # xs))"
      by (simp add: store_obj_def)
    then show ?thesis by blast
  next
    case (Inr loc)
    from Cons.IH [of "seen @ [set_locator loc x]"] obtain j where
      "fst (store_each s k f (seen @ [set_locator loc x]) xs) = map (Store k) (take j xs)"
      by blast
    with Inr have "fst (store_each s k f seen (x # xs)) = map (Store k) (take (Suc j) (x # xs))"
      by (cases "store_each s k f (seen @ [set_locator loc x]) xs") (simp add: store_obj_def)
    then show ?thesis by blast
  qed
qed

lemma is_Media_set_locator [simp]: "is_Media (set_locator loc x) = is_Media x"
  by (cases x) simp_all

lemma is_Media_list_set_locator [simp]: "is_Media_list (set_locator loc x) = is_Media_list x"
  by (cases x) simp_all

lemma not_both: "is_Media p \<Longrightarrow> \<not> is_Media_list p"
  by (cases p) simp_all

lemma nested_media_Media: "is_Media p \<Longrightarrow> nested_media p = [p]"
  by (cases p) simp_all

lemma nested_media_list: "is_Media_list p \<Longrightarrow> nested_media p = elements p"
  by (cases p rule: is_Media_list.cases) (auto elim: is_Media.elims)

lemma nested_media_other: "\<not> is_Media p \<Longrightarrow> \<not> is_Media_list p \<Longrightarrow> nested_media p = []"
  by (cases p rule: nested_media.cases) simp_all

lemma store_prop_returns:
  assumes "returns s"
  shows "\<exists>p'. store_prop s k f p = (map (Store k) (nested_media p), Inr p')"
proof -
  consider (m) "is_Media p" | (l) "is_Media_list p" | (o) "\<not> is_Media p" "\<not> is_Media_list p"
    by blast
  then show ?thesis
  proof cases
    case m
    from store_obj_returns [OF assms, of k "f p" p] obtain x' where
      x': "store_obj s k (f p) p = ([Store k p], Inr x')" by blast
    then have "x' = set_locator (projr (store s p (f p))) p"
      by (auto simp: store_obj_def split: sum.splits)
    then have "\<not> is_Media_list x'" using m by (simp add: not_both)
    with m x' show ?thesis by (simp add: store_prop_def nested_media_Media)
  next
    case l
    then have nm: "\<not> is_Media p" using not_both by blast
    from store_each_returns [OF assms, of k "\<lambda>xs. f (VList xs)" "[]" "elements p"]
    obtain ys where "store_each s k (\<lambda>xs. f (VList xs)) [] (elements p) =
        (map (Store k) (elements p), Inr ys)" by blast
    with l nm show ?thesis by (simp add: store_prop_def nested_media_list)
  next
    case o
    then show ?thesis by (simp add: store_prop_def nested_media_other)
  qed
qed

lemma store_props_returns:
  assumes "returns s"
  shows "\<exists>ps'. store_props s k f seen ps =
    (map (Store k) (concat (map (\<lambda>kp. nested_media (snd kp)) ps)), Inr ps')"
proof (induction ps arbitrary: seen)
  case Nil
  then show ?case by simp
next
  case (Cons kp ps)
  obtain key p where kp: "kp = (key, p)" by (cases kp)
  from store_prop_returns [OF assms, of k "\<lambda>q. f (seen @ (key, q) # ps)" p] obtain p' where
    "store_prop s k (\<lambda>q. f (seen @ (key, q) # ps)) p = (map (Store k) (nested_media p), Inr p')"
    by blast
  moreover from Cons.IH [of "seen @ [(key, p')]"] obtain ps' where
    "store_props s k f (seen @ [(key, p')]) ps =
      (map (Store k) (concat (map (\<lambda>kp. nested_media (snd kp)) ps)), Inr ps')"
    by blast
  ultimately show ?case using kp by simp
qed

lemma properties_set_media_locator [simp]: "properties (set_media_locator loc m) = properties m"
  by (simp add: set_media_locator_def)

lemma store_media_returns:
  assumes "returns s"
  shows "\<exists>m'. store_media s k f m =
    (Store k (VMedia m) # map (Store k) (concat (map (\<lambda>kp. nested_media (snd kp)) (properties m))),
     Inr m')"
proof -
  from assms obtain loc where loc: "store s (VMedia m) (f m) = Inr loc"
    unfolding returns_def by blast
  let ?m1 = "set_media_locator loc m"
  from store_props_returns [OF assms, of k "\<lambda>ps. f (set_properties ps ?m1)" "[]" "properties ?m1"]
  obtain ps' where "store_props s k (\<lambda>ps. f (set_properties ps ?m1)) [] (properties m) =
      (map (Store k) (concat (map (\<lambda>kp. nested_media (snd kp)) (properties m))), Inr ps')"
    by auto
  with loc show ?thesis by (simp add: store_media_def Let_def)
qed

lemma length_nested_set_locator [simp]:
  "length (nested_media (set_locator loc p)) = length (nested_media p)"
  by (cases p rule: nested_media.cases) (simp_all add: set_media_locator_def)

lemma store_each_shape:
  "store_each s k f seen xs = (t, Inr ys) \<Longrightarrow>
     \<exists>zs. ys = seen @ zs \<and> length zs = length xs \<and> map is_Media zs = map is_Media xs"
proof (induction xs arbitrary: seen t)
  case Nil
  then show ?case by simp
next
  case (Cons x xs)
  from Cons.prems obtain loc where loc: "store s x (f (seen @ x # xs)) = Inr loc"
    by (cases "store s x (f (seen @ x # xs))") (auto simp: store_obj_def)
  obtain t' where t': "store_each s k f (seen @ [set_locator loc x]) xs = (t', Inr ys)"
    using Cons.prems loc
    by (cases "store_each s k f (seen @ [set_locator loc x]) xs") (auto simp: store_obj_def)
  from Cons.IH [OF t'] obtain zs where "ys = (seen @ [set_locator loc x]) @ zs"
    "length zs = length xs" "map is_Media zs = map is_Media xs" by blast
  then have "ys = seen @ (set_locator loc x # zs) \<and> length (set_locator loc x # zs) = length (x # xs)
      \<and> map is_Media (set_locator loc x # zs) = map is_Media (x # xs)"
    by simp
  then show ?case by blast
qed

lemma nested_media_length_VList:
  "length xs = length ys \<Longrightarrow> map is_Media xs = map is_Media ys \<Longrightarrow>
     length (nested_media (VList xs)) = length (nested_media (VList ys))"
proof (cases xs)
  case Nil
  assume "length xs = length ys"
  with Nil show ?thesis by simp
next
  case (Cons x xs')
  assume l: "length xs = length ys" and m: "map is_Media xs = map is_Media ys"
  from Cons l obtain y ys' where ys: "ys = y # ys'" by (cases ys) auto
  with Cons m have im: "is_Media x = is_Media y" by simp
  show ?thesis
  proof (cases "is_Media x")
    case True
    with im obtain mx my where "x = VMedia mx" "y = VMedia my"
      by (cases x; cases y) auto
    with Cons ys l show ?thesis by simp
  next
    case False
    with im have "\<not> is_Media_list (VList xs)" "\<not> is_Media_list (VList ys)"
      using Cons ys by simp_all
    then show ?thesis
      using nested_media_other [of "VList xs"] nested_media_other [of "VList ys"] by simp
  qed
qed

lemma store_prop_shape:
  assumes "store_prop s k f p = (t, Inr p')"
  shows "length (nested_media p') = length (nested_media p)"
proof -
  consider (m) "is_Media p" | (l) "is_Media_list p" | (o) "\<not> is_Media p" "\<not> is_Media_list p"
    by blast
  then show ?thesis
  proof cases
    case m
    then obtain loc where "store s p (f p) = Inr loc" and "p' = set_locator loc p"
      using assms
      by (cases "store s p (f p)") (auto simp: store_prop_def store_obj_def not_both)
    then show ?thesis by simp
  next
    case l
    then have nm: "\<not> is_Media p" using not_both by blast
    from l obtain xs where p: "p = VList xs" by (cases p rule: is_Media_list.cases) auto
    from assms l nm p obtain t' ys where
      e: "store_each s k (\<lambda>xs. f (VList xs)) [] xs = (t', Inr ys)" and p': "p' = VList ys"
      by (cases "store_each s k (\<lambda>xs. f (VList xs)) [] xs")
         (auto simp: store_prop_def fst_bind snd_bind bind_def split: sum.splits)
    from store_each_shape [OF e] have "length ys = length xs" "map is_Media ys = map is_Media xs"
      by auto
    with p p' show ?thesis using nested_media_length_VList [of ys xs] by simp
  next
    case o
    with assms show ?thesis by (simp add: store_prop_def)
  qed
qed

lemma store_props_shape:
  "store_props s k f seen ps = (t, Inr ps') \<Longrightarrow>
     \<exists>qs. ps' = seen @ qs \<and>
       map (\<lambda>kp. length (nested_media (snd kp))) qs =
       map (\<lambda>kp. length (nested_media (snd kp))) ps"
proof (induction ps arbitrary: seen t)
  case Nil
  then show ?case by simp
next
  case (Cons kp ps)
  obtain key p where kp: "kp = (key, p)" by (cases kp)
  let ?f = "\<lambda>q. f (seen @ (key, q) # ps)"
  obtain t1 r1 where s1: "store_prop s k ?f p = (t1, r1)" by (cases "store_prop s k ?f p")
  with Cons.prems kp obtain p' where r1: "r1 = Inr p'" by (cases r1) auto
  obtain t2 where s2: "store_props s k f (seen @ [(key, p')]) ps = (t2, Inr ps')"
    using Cons.prems kp s1 r1
    by (cases "store_props s k f (seen @ [(key, p')]) ps") auto
  from Cons.IH [OF s2] obtain qs where qs: "ps' = (seen @ [(key, p')]) @ qs"
    "map (\<lambda>kp. length (nested_media (snd kp))) qs =
     map (\<lambda>kp. length (nested_media (snd kp))) ps"
    by blast
  from store_prop_shape [of s k ?f p t1 p'] s1 r1
  have "length (nested_media p') = length (nested_media p)" by simp
  with qs kp have "ps' = seen @ ((key, p') # qs) \<and>
      map (\<lambda>kp. length (nested_media (snd kp))) ((key, p') # qs) =
      map (\<lambda>kp. length (nested_media (snd kp))) (kp # ps)"
    by simp
  then show ?case by blast
qed

lemma store_calls_eq:
  "map (\<lambda>kp. length (nested_media (snd kp))) (properties m') =
   map (\<lambda>kp. length (nested_media (snd kp))) (properties m) \<Longrightarrow>
   store_calls m' = store_calls m"
proof -
  assume a: "map (\<lambda>kp. length (nested_media (snd kp))) (properties m') =
   map (\<lambda>kp. length (nested_media (snd kp))) (properties m)"
  have "length (concat (map (\<lambda>kp. nested_media (snd kp)) ps)) =
      sum_list (map (\<lambda>kp. length (nested_media (snd kp))) ps)" for ps :: "(string \<times> pyval) list"
    by (simp add: length_concat comp_def)
  with a show ?thesis by (simp add: store_calls_def)
qed

lemma properties_set_properties [simp]: "properties (set_properties ps m) = ps"
  by (simp add: set_properties_def)

lemma store_media_counts:
  assumes "returns s"
  shows "\<exists>t m'. store_media s k f m = (t, Inr m') \<and> set t \<subseteq> range (Store k)
     \<and> length t = store_calls m \<and> store_calls m' = store_calls m"
proof -
  from store_media_returns [OF assms, of k f m] obtain m' where
    sm: "store_media s k f m =
      (Store k (VMedia m) #
       map (Store k) (concat (map (\<lambda>kp. nested_media (snd kp)) (properties m))), Inr m')"
    by blast
  let ?t = "Store k (VMedia m) #
       map (Store k) (concat (map (\<lambda>kp. nested_media (snd kp)) (properties m)))"
  have 1: "set ?t \<subseteq> range (Store k)"
    by auto
  have 2: "length ?t = store_calls m"
    by (simp add: store_calls_def)
  from assms obtain loc where loc: "store s (VMedia m) (f m) = Inr loc"
    unfolding returns_def by blast
  let ?m1 = "set_media_locator loc m"
  obtain tp rp where sp:
    "store_props s k (\<lambda>ps. f (set_properties ps ?m1)) [] (properties ?m1) = (tp, rp)"
    by (cases "store_props s k (\<lambda>ps. f (set_properties ps ?m1)) [] (properties ?m1)")
  with sm loc obtain ps' where rp: "rp = Inr ps'" and m': "m' = set_properties ps' ?m1"
    by (cases rp) (auto simp: store_media_def Let_def)
  from store_props_shape [of s k _ "[]" "properties ?m1" tp ps'] sp rp
  have "map (\<lambda>kp. length (nested_media (snd kp))) ps' =
      map (\<lambda>kp. length (nested_media (snd kp))) (properties m)"
    by auto
  with m' have 3: "store_calls m' = store_calls m"
    by (intro store_calls_eq) simp
  from sm 1 2 3 show ?thesis by blast
qed

lemma by_sink_append [simp]: "by_sink k (a @ b) = by_sink k a @ by_sink k b"
  by (simp add: by_sink_def)

lemma by_sink_same: "set t \<subseteq> range (Store k) \<Longrightarrow> by_sink k t = t"
  by (auto simp: by_sink_def filter_id_conv)

lemma by_sink_other: "set t \<subseteq> range (Store k) \<Longrightarrow> j \<noteq> k \<Longrightarrow> by_sink j t = []"
  by (auto simp: by_sink_def filter_empty_conv)

lemma by_sink_Nil [simp]: "by_sink k [] = []"
  by (simp add: by_sink_def)

lemma store_media_list_counts:
  assumes "returns s"
  shows "\<exists>t ms'. store_media_list s k r seen ms = (t, Inr (r\<lparr>media := seen @ ms'\<rparr>)) \<and>
     set t \<subseteq> range (Store k) \<and> length t = sum_list (map store_calls ms) \<and>
     map store_calls ms' = map store_calls ms"
proof (induction ms arbitrary: seen)
  case Nil
  show ?case by simp
next
  case (Cons m ms)
  from store_media_counts [OF assms, of k "\<lambda>m'. r\<lparr>media := seen @ m' # ms\<rparr>" m]
  obtain t1 m' where 1: "store_media s k (\<lambda>m'. r\<lparr>media := seen @ m' # ms\<rparr>) m = (t1, Inr m')"
    "set t1 \<subseteq> range (Store k)" "length t1 = store_calls m" "store_calls m' = store_calls m"
    by blast
  from Cons.IH [of "seen @ [m']"] obtain t2 ms' where
    2: "store_media_list s k r (seen @ [m']) ms = (t2, Inr (r\<lparr>media := (seen @ [m']) @ ms'\<rparr>))"
    "set t2 \<subseteq> range (Store k)" "length t2 = sum_list (map store_calls ms)"
    "map store_calls ms' = map store_calls ms"
    by blast
  from 1 2 have "store_media_list s k r seen (m # ms) =
      (t1 @ t2, Inr (r\<lparr>media := seen @ (m' # ms')\<rparr>)) \<and>
     set (t1 @ t2) \<subseteq> range (Store k) \<and>
     length (t1 @ t2) = sum_list (map store_calls (m # ms)) \<and>
     map store_calls (m' # ms') = map store_calls (m # ms)"
    by simp
  then show ?case by blast
qed

lemma store_loop_counts:
  assumes "\<forall>ks \<in> set xs. returns (snd ks)" and "distinct (map fst xs)"
  shows "\<exists>t r'. store_loop xs r = (t, Inr r') \<and>
     map store_calls (media r') = map store_calls (media r) \<and>
     (\<forall>ks \<in> set xs. length (by_sink (fst ks) t) = sum_list (map store_calls (media r))) \<and>
     (\<forall>j. j \<notin> fst ` set xs \<longrightarrow> by_sink j t = [])"
  using assms
proof (induction xs arbitrary: r)
  case Nil
  then show ?case by simp
next
  case (Cons ks xs)
  obtain k s where ks: "ks = (k, s)" by (cases ks)
  from Cons.prems ks have rs: "returns s" and k: "k \<notin> fst ` set xs"
    and rest: "\<forall>ks \<in> set xs. returns (snd ks)" "distinct (map fst xs)"
    by auto
  from store_media_list_counts [OF rs, of k r "[]" "media r"] obtain t1 ms' where
    1: "store_media_list s k r [] (media r) = (t1, Inr (r\<lparr>media := ms'\<rparr>))"
    "set t1 \<subseteq> range (Store k)" "length t1 = sum_list (map store_calls (media r))"
    "map store_calls ms' = map store_calls (media r)"
    by auto
  let ?r1 = "r\<lparr>media := ms'\<rparr>"
  from Cons.IH [OF rest, of ?r1] obtain t2 r' where
    2: "store_loop xs ?r1 = (t2, Inr r')"
    "map store_calls (media r') = map store_calls (media ?r1)"
    "\<forall>ks \<in> set xs. length (by_sink (fst ks) t2) = sum_list (map store_calls (media ?r1))"
    "\<forall>j. j \<notin> fst ` set xs \<longrightarrow> by_sink j t2 = []"
    by blast
  have a: "store_loop (ks # xs) r = (t1 @ t2, Inr r')"
    using ks 1(1) 2(1) by simp
  have b: "map store_calls (media r') = map store_calls (media r)"
    using 2(2) 1(4) by simp
  have c: "length (by_sink (fst js) (t1 @ t2)) = sum_list (map store_calls (media r))"
    if "js \<in> set (ks # xs)" for js
  proof (cases "js = ks")
    case True
    with ks k 1(2,3) 2(4) show ?thesis by (simp add: by_sink_same)
  next
    case False
    with that have in_xs: "js \<in> set xs" by simp
    with k have "fst js \<noteq> k" by auto
    with 1(2) have "by_sink (fst js) t1 = []" by (simp add: by_sink_other)
    with in_xs 2(3) 1(4) show ?thesis by simp
  qed
  have d: "by_sink j (t1 @ t2) = []" if "j \<notin> fst ` set (ks # xs)" for j
  proof -
    from that ks have "j \<noteq> k" "j \<notin> fst ` set xs" by auto
    with 1(2) 2(4) show ?thesis by (simp add: by_sink_other)
  qed
  from a b c d show ?case by blast
qed

lemma store_stage_counts:
  assumes "\<forall>s \<in> set (storages cfg). returns s" and "k < length (storages cfg)"
  shows "length (by_sink k (fst (store_stage cfg r))) = sum_list (map store_calls (media r))"
proof -
  let ?xs = "enumerate 0 (storages cfg)"
  have 1: "\<forall>ks \<in> set ?xs. returns (snd ks)"
    using assms(1) by (auto simp: in_set_enumerate_eq)
  have 2: "distinct (map fst ?xs)" by simp
  have 3: "(k, storages cfg ! k) \<in> set ?xs"
    using assms(2) by (simp add: in_set_enumerate_eq)
  from store_loop_counts [OF 1 2, of r] 3 show ?thesis
    by (fastforce simp: store_stage_def)
qed

lemma store_calls_four:
  assumes "mset (map snd (properties m)) = {#Scalar c, VMedia n, VList [VMedia a, VMedia b]#}"
  shows "store_calls m = 4"
proof -
  let ?nested = "concat (map (\<lambda>kp. nested_media (snd kp)) (properties m))"
  have "?nested = concat (map nested_media (map snd (properties m)))"
    by (simp add: comp_def)
  then have "mset ?nested = (\<Sum>v \<in># mset (map snd (properties m)). mset (nested_media v))"
    by (simp only: mset_concat sum_mset_sum_list [symmetric] mset_map map_map comp_def
        image_mset.compositionality)
  moreover have "image_mset snd (mset (properties m)) =
      {#Scalar c, VMedia n, VList [VMedia a, VMedia b]#}"
    using assms by simp
  ultimately have "mset ?nested = {#VMedia n, VMedia a, VMedia b#}"
    by simp
  from arg_cong [OF this, of size] show ?thesis
    by (simp add: store_calls_def)
qed

lemma strip_media_set_media_locator [simp]:
  "strip_media (set_media_locator loc m) = strip_media m"
  by (cases m) (simp add: set_media_locator_def)

lemma strip_set_locator [simp]: "strip (set_locator loc x) = strip x"
  by (cases x) simp_all

lemma strip_media_set_properties:
  "strip_media (set_properties ps m) = Media (filename m) None (map (map_prod id strip) ps)"
  by (cases m) (simp add: set_properties_def)

lemma strip_media_eq:
  "strip_media m = Media (filename m) None (map (map_prod id strip) (properties m))"
  by (cases m) simp

lemma nested_media_strip: "map strip (nested_media p) = nested_media (strip p)"
  by (cases p rule: nested_media.cases) simp_all

lemma objects_of_strip: "map strip (objects_of m) = objects_of (strip_media m)"
proof -
  have "map strip (concat (map (\<lambda>kp. nested_media (snd kp)) ps)) =
      concat (map (\<lambda>kp. nested_media (snd kp)) (map (map_prod id strip) ps))"
    for ps :: "(string \<times> pyval) list"
    by (induction ps) (auto simp: nested_media_strip)
  then show ?thesis
    by (cases m) (simp add: objects_of_def)
qed

lemma store_each_strip:
  "store_each s k f seen xs = (t, Inr ys) \<Longrightarrow>
     \<exists>zs. ys = seen @ zs \<and> map strip zs = map strip xs"
proof (induction xs arbitrary: seen t)
  case Nil
  then show ?case by simp
next
  case (Cons x xs)
  from Cons.prems obtain loc where loc: "store s x (f (seen @ x # xs)) = Inr loc"
    by (cases "store s x (f (seen @ x # xs))") (auto simp: store_obj_def)
  obtain t' where t': "store_each s k f (seen @ [set_locator loc x]) xs = (t', Inr ys)"
    using Cons.prems loc
    by (cases "store_each s k f (seen @ [set_locator loc x]) xs") (auto simp: store_obj_def)
  from Cons.IH [OF t'] obtain zs where "ys = (seen @ [set_locator loc x]) @ zs"
    "map strip zs = map strip xs" by blast
  then have "ys = seen @ (set_locator loc x # zs) \<and>
      map strip (set_locator loc x # zs) = map strip (x # xs)"
    by simp
  then show ?case by blast
qed

lemma store_prop_strip:
  assumes "store_prop s k f p = (t, Inr p')"
  shows "strip p' = strip p"
proof -
  consider (m) "is_Media p" | (l) "is_Media_list p" | (o) "\<not> is_Media p" "\<not> is_Media_list p"
    by blast
  then show ?thesis
  proof cases
    case m
    then obtain loc where "store s p (f p) = Inr loc" and "p' = set_locator loc p"
      using assms
      by (cases "store s p (f p)") (auto simp: store_prop_def store_obj_def not_both)
    then show ?thesis by simp
  next
    case l
    then have nm: "\<not> is_Media p" using not_both by blast
    from l obtain xs where p: "p = VList xs" by (cases p rule: is_Media_list.cases) auto
    from assms l nm p obtain t' ys where
      e: "store_each s k (\<lambda>xs. f (VList xs)) [] xs = (t', Inr ys)" and p': "p' = VList ys"
      by (cases "store_each s k (\<lambda>xs. f (VList xs)) [] xs")
         (auto simp: store_prop_def fst_bind snd_bind bind_def split: sum.splits)
    from store_each_strip [OF e] have "map strip ys = map strip xs"
      by auto
    with p p' show ?thesis by simp
  next
    case o
    with assms show ?thesis by (simp add: store_prop_def)
  qed
qed

lemma store_props_strip:
  "store_props s k f seen ps = (t, Inr ps') \<Longrightarrow>
     \<exists>qs. ps' = seen @ qs \<and> map (map_prod id strip) qs = map (map_prod id strip) ps"
proof (induction ps arbitrary: seen t)
  case Nil
  then show ?case by simp
next
  case (Cons kp ps)
  obtain key p where kp: "kp = (key, p)" by (cases kp)
  let ?f = "\<lambda>q. f (seen @ (key, q) # ps)"
  obtain t1 r1 where s1: "store_prop s k ?f p = (t1, r1)" by (cases "store_prop s k ?f p")
  with Cons.prems kp obtain p' where r1: "r1 = Inr p'" by (cases r1) auto
  obtain t2 where s2: "store_props s k f (seen @ [(key, p')]) ps = (t2, Inr ps')"
    using Cons.prems kp s1 r1
    by (cases "store_props s k f (seen @ [(key, p')]) ps") auto
  from Cons.IH [OF s2] obtain qs where qs: "ps' = (seen @ [(key, p')]) @ qs"
    "map (map_prod id strip) qs = map (map_prod id strip) ps"
    by blast
  from store_prop_strip [of s k ?f p t1 p'] s1 r1
  have "strip p' = strip p" by simp
  with qs kp have "ps' = seen @ ((key, p') # qs) \<and>
      map (map_prod id strip) ((key, p') # qs) = map (map_prod id strip) (kp # ps)"
    by simp
  then show ?case by blast
qed

lemma objects_stored_append [simp]:
  "objects_stored k (a @ b) = objects_stored k a @ objects_stored k b"
  by (simp add: objects_stored_def)

lemma objects_stored_Nil [simp]: "objects_stored k [] = []"
  by (simp add: objects_stored_def)

lemma objects_stored_same [simp]: "objects_stored k (map (Store k) xs) = xs"
  by (induction xs) (simp_all add: objects_stored_def)

lemma objects_stored_other: "j \<noteq> k \<Longrightarrow> objects_stored j (map (Store k) xs) = []"
  by (induction xs) (simp_all add: objects_stored_def)

lemma store_media_objects:
  assumes "returns s"
  shows "\<exists>m'. store_media s k f m = (map (Store k) (objects_of m), Inr m') \<and>
     strip_media m' = strip_media m"
proof -
  from store_media_returns [OF assms, of k f m] obtain m' where
    sm: "store_media s k f m = (map (Store k) (objects_of m), Inr m')"
    by (auto simp: objects_of_def)
  from assms obtain loc where loc: "store s (VMedia m) (f m) = Inr loc"
    unfolding returns_def by blast
  let ?m1 = "set_media_locator loc m"
  obtain tp rp where sp:
    "store_props s k (\<lambda>ps. f (set_properties ps ?m1)) [] (properties ?m1) = (tp, rp)"
    by (cases "store_props s k (\<lambda>ps. f (set_properties ps ?m1)) [] (properties ?m1)")
  with sm loc obtain ps' where rp: "rp = Inr ps'" and m': "m' = set_properties ps' ?m1"
    by (cases rp) (auto simp: store_media_def Let_def)
  from store_props_strip [of s k _ "[]" "properties ?m1" tp ps'] sp rp
  have "map (map_prod id strip) ps' = map (map_prod id strip) (properties m)"
    by auto
  with m' have "strip_media m' = strip_media m"
    by (simp add: strip_media_set_properties strip_media_eq [of m] set_media_locator_def)
  with sm show ?thesis by blast
qed

lemma store_media_list_objects:
  assumes "returns s"
  shows "\<exists>ms'. store_media_list s k r seen ms =
       (map (Store k) (concat (map objects_of ms)), Inr (r\<lparr>media := seen @ ms'\<rparr>)) \<and>
     map strip_media ms' = map strip_media ms"
proof (induction ms arbitrary: seen)
  case Nil
  show ?case by simp
next
  case (Cons m ms)
  from store_media_objects [OF assms, of k "\<lambda>m'. r\<lparr>media := seen @ m' # ms\<rparr>" m]
  obtain m' where 1: "store_media s k (\<lambda>m'. r\<lparr>media := seen @ m' # ms\<rparr>) m =
      (map (Store k) (objects_of m), Inr m')" "strip_media m' = strip_media m"
    by blast
  from Cons.IH [of "seen @ [m']"] obtain ms' where
    2: "store_media_list s k r (seen @ [m']) ms =
      (map (Store k) (concat (map objects_of ms)), Inr (r\<lparr>media := (seen @ [m']) @ ms'\<rparr>))"
    "map strip_media ms' = map strip_media ms"
    by blast
  from 1 2 have "store_media_list s k r seen (m # ms) =
      (map (Store k) (concat (map objects_of (m # ms))), Inr (r\<lparr>media := seen @ (m' # ms')\<rparr>)) \<and>
     map strip_media (m' # ms') = map strip_media (m # ms)"
    by simp
  then show ?case by blast
qed

lemma strip_objects:
  "map strip_media ms' = map strip_media ms \<Longrightarrow>
     map strip (concat (map objects_of ms')) = map strip (concat (map objects_of ms))"
proof (induction ms arbitrary: ms')
  case Nil
  then show ?case by simp
next
  case (Cons m ms)
  then obtain m' ms'' where "ms' = m' # ms''" "strip_media m' = strip_media m"
    "map strip_media ms'' = map strip_media ms"
    by (cases ms') auto
  with Cons.IH [of ms''] show ?case
    by (simp add: objects_of_strip)
qed

lemma store_loop_objects:
  assumes "\<forall>ks \<in> set xs. returns (snd ks)" and "distinct (map fst xs)"
  shows "\<exists>t r'. store_loop xs r = (t, Inr r') \<and>
     map strip_media (media r') = map strip_media (media r) \<and>
     (\<forall>ks \<in> set xs. map strip (objects_stored (fst ks) t) =
        map strip (concat (map objects_of (media r)))) \<and>
     (\<forall>j. j \<notin> fst ` set xs \<longrightarrow> objects_stored j t = [])"
  using assms
proof (induction xs arbitrary: r)
  case Nil
  then show ?case by simp
next
  case (Cons ks xs)
  obtain k s where ks: "ks = (k, s)" by (cases ks)
  from Cons.prems ks have rs: "returns s" and k: "k \<notin> fst ` set xs"
    and rest: "\<forall>ks \<in> set xs. returns (snd ks)" "distinct (map fst xs)"
    by auto
  from store_media_list_objects [OF rs, of k r "[]" "media r"] obtain ms' where
    1: "store_media_list s k r [] (media r) =
      (map (Store k) (concat (map objects_of (media r))), Inr (r\<lparr>media := ms'\<rparr>))"
    "map strip_media ms' = map strip_media (media r)"
    by auto
  let ?t1 = "map (Store k) (concat (map objects_of (media r)))"
  let ?r1 = "r\<lparr>media := ms'\<rparr>"
  from Cons.IH [OF rest, of ?r1] obtain t2 r' where
    2: "store_loop xs ?r1 = (t2, Inr r')"
    "map strip_media (media r') = map strip_media (media ?r1)"
    "\<forall>ks \<in> set xs. map strip (objects_stored (fst ks) t2) =
        map strip (concat (map objects_of (media ?r1)))"
    "\<forall>j. j \<notin> fst ` set xs \<longrightarrow> objects_stored j t2 = []"
    by blast
  have a: "store_loop (ks # xs) r = (?t1 @ t2, Inr r')"
    using ks 1(1) 2(1) by simp
  have b: "map strip_media (media r') = map strip_media (media r)"
    using 2(2) 1(2) by simp
  have c: "map strip (objects_stored (fst js) (?t1 @ t2)) =
      map strip (concat (map objects_of (media r)))"
    if "js \<in> set (ks # xs)" for js
  proof (cases "js = ks")
    case True
    with ks k 2(4) show ?thesis by simp
  next
    case False
    with that have in_xs: "js \<in> set xs" by simp
    with k have "fst js \<noteq> k" by auto
    then have "objects_stored (fst js) ?t1 = []" by (rule objects_stored_other)
    with in_xs 2(3) strip_objects [OF 1(2)] show ?thesis by simp
  qed
  have d: "objects_stored j (?t1 @ t2) = []" if "j \<notin> fst ` set (ks # xs)" for j
  proof -
    from that ks have "j \<noteq> k" "j \<notin> fst ` set xs" by auto
    with 2(4) show ?thesis by (simp add: objects_stored_other)
  qed
  from a b c d show ?case by blast
qed

lemma store_stage_objects:
  assumes "\<forall>s \<in> set (storages cfg). returns s" and "k < length (storages cfg)"
  shows "map strip (objects_stored k (fst (store_stage cfg r))) =
    map strip (concat (map objects_of (media r)))"
proof -
  let ?xs = "enumerate 0 (storages cfg)"
  have 1: "\<forall>ks \<in> set ?xs. returns (snd ks)"
    using assms(1) by (auto simp: in_set_enumerate_eq)
  have 2: "distinct (map fst ?xs)" by simp
  have 3: "(k, storages cfg ! k) \<in> set ?xs"
    using assms(2) by (simp add: in_set_enumerate_eq)
  from store_loop_objects [OF 1 2, of r] 3 show ?thesis
    by (fastforce simp: store_stage_def)
qed

lemma store_stage_first_sink:
  assumes "\<forall>s \<in> set (storages cfg). returns s" and "0 < length (storages cfg)"
  shows "objects_stored 0 (fst (store_stage cfg r)) = concat (map objects_of (media r))"
proof -
  from assms(2) obtain s ss where ss: "storages cfg = s # ss" by (cases "storages cfg") auto
  with assms(1) have rs: "returns s" by simp
  from store_media_list_objects [OF rs, of 0 r "[]" "media r"] obtain ms' where
    1: "store_media_list s 0 r [] (media r) =
      (map (Store 0) (concat (map objects_of (media r))), Inr (r\<lparr>media := ms'\<rparr>))"
    by auto
  have 2: "\<forall>ks \<in> set (enumerate 1 ss). returns (snd ks)"
    using assms(1) ss by (auto simp: in_set_enumerate_eq)
  have 3: "distinct (map fst (enumerate 1 ss))" by simp
  from store_loop_objects [OF 2 3, of "r\<lparr>media := ms'\<rparr>"] obtain t2 r' where
    4: "store_loop (enumerate 1 ss) (r\<lparr>media := ms'\<rparr>) = (t2, Inr r')"
    "\<forall>j. j \<notin> fst ` set (enumerate 1 ss) \<longrightarrow> objects_stored j t2 = []"
    by blast
  have "0 \<notin> fst ` set (enumerate 1 ss)" by (auto simp: in_set_enumerate_eq)
  with 4(2) have "objects_stored 0 t2 = []" by blast
  with 1 4(1) ss show ?thesis by (simp add: store_stage_def)
qed

section \<open>The claims\<close>

text \<open>
  C1, as amended. When the stages up to the cache lookup have returned and the merged cache
  candidate \<open>c\<close> tests true with its \<open>rearchivable\<close> flag false, \<open>archive\<close> makes no
  call of \<open>download\<close>; after the lookup its only calls are \<open>done\<close> with \<open>c\<close> on the
  State Stores in registration order; and when the \<open>done\<close> call of every State Store
  returns, every State Store is called and \<open>archive\<close> returns \<open>c\<close>, leaving the item as
  the REARCHIVABLE_CHECK stage left it.
\<close>

theorem cache_hit_short_circuits:
  assumes "sanitize_stage cfg item = (t1, Inr r1)"
    and "rearchivable_stage cfg r1 = (t2, Inr r2)"
    and "cache_lookup cfg r2 = (t3, Inr (Some c))"
    and "truthy (metadata_cls cfg) c" and "\<not> rearchivable c"
  shows "(\<forall>e \<in> set (fst (archive cfg item)). method_of e \<noteq> M_download) \<and>
    (\<exists>k \<le> length (databases cfg).
        fst (archive cfg item) = t1 @ t2 @ t3 @ map (\<lambda>i. Done i c) [0..<k]) \<and>
    ((\<forall>d \<in> set (databases cfg). done_db d c = Inr ()) \<longrightarrow>
        archive cfg item =
          (t1 @ t2 @ t3 @ map (\<lambda>i. Done i c) [0..<length (databases cfg)], Inr (c, r2)))"
proof -
  let ?n = "notify_loop done_db Done (enumerate 0 (databases cfg)) c"
  note al = after_lookup_hit [OF assms(4,5), of r2]
  have a: "archive cfg item =
      (t1 @ t2 @ t3 @ fst ?n, case snd ?n of Inl e \<Rightarrow> Inl (e, r2) | Inr u \<Rightarrow> Inr (c, r2))"
    using archive_after_lookup [OF assms(1-3)] al by simp
  have 1: "\<forall>e \<in> set (fst (archive cfg item)). method_of e \<noteq> M_download"
  proof
    fix e assume "e \<in> set (fst (archive cfg item))"
    then consider "e \<in> set t1" | "e \<in> set t2" | "e \<in> set t3" | "e \<in> set (fst ?n)"
      using a by auto
    then show "method_of e \<noteq> M_download"
    proof cases
      case 1
      then show ?thesis using methods_sanitize_stage [of e cfg item] assms(1) by simp
    next
      case 2
      then show ?thesis using methods_rearchivable_stage [of e cfg r1] assms(2) by simp
    next
      case 3
      then show ?thesis using methods_cache_lookup [of e cfg r2] assms(3) by auto
    next
      case 4
      then have "method_of e = M_done"
        by (rule method_notify_loop [where ev = Done, rotated]) simp
      then show ?thesis by simp
    qed
  qed
  have 2: "\<exists>k \<le> length (databases cfg).
        fst (archive cfg item) = t1 @ t2 @ t3 @ map (\<lambda>i. Done i c) [0..<k]"
    using notify_loop_prefix_index [of "databases cfg" done_db Done 0 c] a by auto
  have 3: "archive cfg item =
          (t1 @ t2 @ t3 @ map (\<lambda>i. Done i c) [0..<length (databases cfg)], Inr (c, r2))"
    if "\<forall>d \<in> set (databases cfg). done_db d c = Inr ()"
    using notify_loop_all_return_index [where call = done_db and x = c and ev = Done
        and ds = "databases cfg" and i = 0] that a
    by simp
  from 1 2 3 show ?thesis by blast
qed

theorem cache_hit_short_circuits_witness:
  "sanitize_stage hit_cfg (plain_item ''a'') = ([SanitizeUrl 0 ''a''], Inr sanitized_item) \<and>
   rearchivable_stage hit_cfg sanitized_item = ([IsRearchivable 0 ''a/''], Inr sanitized_item) \<and>
   cache_lookup hit_cfg sanitized_item = (interleaved sanitized_item 2, Inr (Some seen_before)) \<and>
   truthy (metadata_cls hit_cfg) seen_before \<and> \<not> rearchivable seen_before \<and>
   done_db quiet_db seen_before = Inr () \<and> done_db hit_db seen_before = Inr () \<and>
   archive hit_cfg (plain_item ''a'') =
     ([SanitizeUrl 0 ''a'', IsRearchivable 0 ''a/''] @ interleaved sanitized_item 2 @
      [Done 0 seen_before, Done 1 seen_before], Inr (seen_before, sanitized_item))"
proof -
  have h1: "sanitize_stage hit_cfg (plain_item ''a'') = ([SanitizeUrl 0 ''a''], Inr sanitized_item)"
    by (simp add: sanitize_stage_def plain_item_def simple_cls_def quiet_db_def no_formatter_def base_cfg_def
        set_meta_def Let_def
        slash_archiver_def seen_before_def hit_db_def hit_cfg_def sanitized_item_def)
  have h2: "rearchivable_stage hit_cfg sanitized_item =
      ([IsRearchivable 0 ''a/''], Inr sanitized_item)"
    by (simp add: rearchivable_stage_def plain_item_def simple_cls_def quiet_db_def no_formatter_def base_cfg_def
        set_meta_def Let_def
        slash_archiver_def seen_before_def hit_db_def hit_cfg_def sanitized_item_def)
  have h3: "cache_lookup hit_cfg sanitized_item =
      (interleaved sanitized_item 2, Inr (Some seen_before))"
    by (simp add: cache_lookup_def interleaved_def merge_local_def or_new_def plain_item_def simple_cls_def quiet_db_def no_formatter_def base_cfg_def
        set_meta_def Let_def
        slash_archiver_def seen_before_def hit_db_def hit_cfg_def sanitized_item_def
        upt_conv_Cons)
  have h4: "truthy (metadata_cls hit_cfg) seen_before"
    by (simp add: simple_cls_def base_cfg_def hit_cfg_def)
  have h5: "\<not> rearchivable seen_before"
    by (simp add: plain_item_def seen_before_def)
  have h6: "\<forall>d \<in> set (databases hit_cfg). done_db d seen_before = Inr ()"
    by (simp add: quiet_db_def base_cfg_def hit_db_def hit_cfg_def)
  have n: "[0..<length (databases hit_cfg)] = [0, 1]"
    by (simp add: base_cfg_def hit_cfg_def upt_conv_Cons)
  from cache_hit_short_circuits [OF h1 h2 h3 h4 h5] h6
  have "archive hit_cfg (plain_item ''a'') =
     ([SanitizeUrl 0 ''a''] @ [IsRearchivable 0 ''a/''] @ interleaved sanitized_item 2 @
        map (\<lambda>i. Done i seen_before) [0..<length (databases hit_cfg)],
      Inr (seen_before, sanitized_item))"
    by blast
  with h1 h2 h3 h4 h5 n show ?thesis by (simp add: quiet_db_def hit_db_def)
qed

text \<open>
  C1 as stated fails: the candidate tests true and is not rearchivable, but the \<open>done\<close>
  call of the first State Store raises. The second State Store is never told, and
  \<open>archive\<close> does not return the cached record: the error leaves it.
\<close>

theorem cache_hit_done_raises_counterexample:
  "sanitize_stage raising_hit_cfg (plain_item ''a'') =
     ([SanitizeUrl 0 ''a''], Inr sanitized_item) \<and>
   rearchivable_stage raising_hit_cfg sanitized_item =
     ([IsRearchivable 0 ''a/''], Inr sanitized_item) \<and>
   cache_lookup raising_hit_cfg sanitized_item =
     ([Started 0 sanitized_item, Fetch 0 sanitized_item,
       Started 1 sanitized_item, Fetch 1 sanitized_item], Inr (Some seen_before)) \<and>
   truthy (metadata_cls raising_hit_cfg) seen_before \<and> \<not> rearchivable seen_before \<and>
   archive raising_hit_cfg (plain_item ''a'') =
     ([SanitizeUrl 0 ''a'', IsRearchivable 0 ''a/'',
       Started 0 sanitized_item, Fetch 0 sanitized_item,
       Started 1 sanitized_item, Fetch 1 sanitized_item, Done 0 seen_before],
      Inl (Exception, sanitized_item))"
  by (simp add: archive_def sanitize_stage_def rearchivable_stage_def cache_lookup_def
        after_lookup_def pipeline_def fetch_stage_def enrich_stage_def store_stage_def
        render_stage_def done_stage_def done_all_def short_circuit_def merge_local_def or_new_def
        with_tmp_dir_def leave_with_def feed_item_def plain_item_def simple_cls_def quiet_db_def no_formatter_def base_cfg_def
        set_meta_def Let_def
      slash_archiver_def seen_before_def hit_db_def raising_hit_cfg_def sanitized_item_def)

text \<open>
  C2. When no download is interrupted (by \<open>KeyboardInterrupt\<close>, or by another error
  that \<open>except Exception\<close> does not catch), the FETCH stage calls \<open>download\<close> on the
  archivers in registration order, each with the item as the archivers before it left
  it: the record an archiver returns is merged into the item, and an archiver whose
  download raises leaves the item as it was and the loop goes on to the next. The loop
  stops at the first archiver after whose merge the item reports success, so when it
  stops before the last archiver the item reports success. When the item did not report
  success on entry and no archiver succeeds, every archiver is called and the item
  still does not report success. In every case the stage returns, and the calls of the
  ENRICH stage on the item it returned follow its own.
\<close>

theorem fetch_stage_tries_until_success:
  assumes "\<forall>a \<in> set (archivers cfg). \<forall>x.
      download a x \<noteq> Inl KeyboardInterrupt \<and> download a x \<noteq> Inl SystemExit"
    and "k = calls_made (metadata_cls cfg) (archivers cfg) r"
    and "r' = foldl (after_download (metadata_cls cfg)) r (take k (archivers cfg))"
  shows "fetch_stage cfg r =
      (download_calls 0 (take k (tried_with (metadata_cls cfg) (archivers cfg) r)), Inr r') \<and>
    (k < length (archivers cfg) \<longrightarrow> is_success (metadata_cls cfg) r') \<and>
    (\<not> is_success (metadata_cls cfg) r \<longrightarrow>
     (\<forall>ar \<in> set (tried_with (metadata_cls cfg) (archivers cfg) r).
        \<not> succeeds (metadata_cls cfg) ar) \<longrightarrow>
     k = length (archivers cfg) \<and> \<not> is_success (metadata_cls cfg) r') \<and>
    (\<exists>rest. fst (pipeline cfg r) =
       fst (fetch_stage cfg r) @ fst (enrich_stage cfg r') @ rest)"
proof -
  let ?cls = "metadata_cls cfg" and ?as = "archivers cfg"
  have 1: "fetch_stage cfg r = (download_calls 0 (take k (tried_with ?cls ?as r)), Inr r')"
    using fetch_loop_refines [OF assms(1), of ?cls 0 r] assms(2,3)
    by (simp add: fetch_stage_def)
  have 2: "k < length ?as \<longrightarrow> is_success ?cls r'"
    using stops_only_on_success [of ?cls ?as r] assms(2,3) by simp
  have 3: "\<not> is_success ?cls r \<longrightarrow>
     (\<forall>ar \<in> set (tried_with ?cls ?as r). \<not> succeeds ?cls ar) \<longrightarrow>
     k = length ?as \<and> \<not> is_success ?cls r'"
    using exhausted_without_success [of ?cls r ?as] assms(2,3) by simp
  have 4: "\<exists>rest. fst (pipeline cfg r) =
       fst (fetch_stage cfg r) @ fst (enrich_stage cfg r') @ rest"
    using pipeline_proceeds [OF 1] 1 by simp
  from 1 2 3 4 show ?thesis by blast
qed

theorem fetch_stage_tries_until_success_witness:
  "(\<forall>x. download slash_archiver x \<noteq> Inl KeyboardInterrupt) \<and>
   (\<forall>x. download nomatch_archiver x \<noteq> Inl KeyboardInterrupt) \<and>
   (\<forall>x. download tweet_archiver x \<noteq> Inl KeyboardInterrupt) \<and>
   (\<forall>x. download slash_archiver x \<noteq> Inl SystemExit) \<and>
   (\<forall>x. download nomatch_archiver x \<noteq> Inl SystemExit) \<and>
   (\<forall>x. download tweet_archiver x \<noteq> Inl SystemExit) \<and>
   calls_made simple_cls (archivers three_cfg) (plain_item ''a'') = 3 \<and>
   fetch_stage three_cfg (plain_item ''a'') =
     ([Download 0 (plain_item ''a''), Download 1 (plain_item ''a''),
       Download 2 (plain_item ''a'')], Inr archived_item)"
proof -
  have h: "\<forall>a \<in> set (archivers three_cfg). \<forall>x.
      download a x \<noteq> Inl KeyboardInterrupt \<and> download a x \<noteq> Inl SystemExit"
    by (simp add: plain_item_def simple_cls_def quiet_db_def no_formatter_def base_cfg_def
        set_meta_def Let_def
        slash_archiver_def nomatch_archiver_def tweet_archiver_def three_cfg_def archived_item_def)
  have k: "calls_made (metadata_cls three_cfg) (archivers three_cfg) (plain_item ''a'') = 3"
    by (simp add: calls_made_Cons succeeds_def after_download_def plain_item_def simple_cls_def quiet_db_def no_formatter_def base_cfg_def
        set_meta_def Let_def
        slash_archiver_def nomatch_archiver_def tweet_archiver_def three_cfg_def archived_item_def)
  have r: "foldl (after_download (metadata_cls three_cfg)) (plain_item ''a'')
      (take 3 (archivers three_cfg)) = archived_item"
    by (simp add: after_download_def plain_item_def simple_cls_def quiet_db_def no_formatter_def base_cfg_def
        set_meta_def Let_def
        slash_archiver_def nomatch_archiver_def tweet_archiver_def three_cfg_def archived_item_def)
  have t: "download_calls 0 (take 3 (tried_with (metadata_cls three_cfg) (archivers three_cfg)
      (plain_item ''a''))) =
     [Download 0 (plain_item ''a''), Download 1 (plain_item ''a''),
       Download 2 (plain_item ''a'')]"
    by (simp add: after_download_def plain_item_def simple_cls_def quiet_db_def no_formatter_def base_cfg_def
        set_meta_def Let_def
        slash_archiver_def nomatch_archiver_def tweet_archiver_def three_cfg_def archived_item_def)
  from fetch_stage_tries_until_success [OF h k [symmetric] r [symmetric]] t
  have "fetch_stage three_cfg (plain_item ''a'') =
     ([Download 0 (plain_item ''a''), Download 1 (plain_item ''a''),
       Download 2 (plain_item ''a'')], Inr archived_item)"
    by simp
  moreover have "metadata_cls three_cfg = simple_cls" by (simp add: three_cfg_def base_cfg_def)
  ultimately show ?thesis using k by (simp add: plain_item_def simple_cls_def quiet_db_def no_formatter_def base_cfg_def
        set_meta_def Let_def
        slash_archiver_def nomatch_archiver_def tweet_archiver_def three_cfg_def archived_item_def)
qed

text \<open>
  C3, as amended. What reaches the handlers of the run loop is the error that leaves the
  \<open>with\<close> block around \<open>archive\<close>: the error of \<open>archive\<close> when the clean-up of
  the temporary directory returns, the error of the clean-up when that raises. When it
  is a \<open>KeyboardInterrupt\<close> and the item is in state \<open>x\<close>, the run loop calls
  \<open>aborted\<close> with \<open>x\<close> on the State Stores in registration order and nothing after
  that: no later item is processed, and the run does not end by exhausting the feed;
  when every \<open>aborted\<close> call returns, all State Stores are called and the run ends in
  \<open>exit()\<close>. When it is an \<open>Exception\<close>, the calls that follow for the item are
  \<open>failed\<close> with \<open>x\<close> on the State Stores in registration order; when every
  \<open>failed\<close> call returns, all State Stores are called, \<open>feed_item\<close> returns \<open>None\<close>,
  and the loop goes on with the remaining items. An error of any other class is caught
  by neither handler: no State Store is called and the run ends with that error.
\<close>

theorem run_loop_handles_errors:
  assumes "with_tmp_dir cfg td item = (t, Inl (e, x))"
  shows "(e = KeyboardInterrupt \<longrightarrow>
      (\<exists>k \<le> length (databases cfg).
          fst (feed cfg ((td, item) # items)) = t @ map (\<lambda>i. Aborted i x) [0..<k]) \<and>
      snd (feed cfg ((td, item) # items)) \<noteq> Exhausted \<and>
      ((\<forall>d \<in> set (databases cfg). aborted d x = Inr ()) \<longrightarrow>
         feed_item cfg td item =
           (t @ map (\<lambda>i. Aborted i x) [0..<length (databases cfg)], Exit) \<and>
         feed cfg ((td, item) # items) =
           (t @ map (\<lambda>i. Aborted i x) [0..<length (databases cfg)], Exited))) \<and>
    (e = Exception \<longrightarrow>
      (\<exists>k \<le> length (databases cfg).
          fst (feed_item cfg td item) = t @ map (\<lambda>i. Failed i x) [0..<k]) \<and>
      ((\<forall>d \<in> set (databases cfg). failed d x = Inr ()) \<longrightarrow>
         feed_item cfg td item =
           (t @ map (\<lambda>i. Failed i x) [0..<length (databases cfg)], ReturnedNone) \<and>
         feed cfg ((td, item) # items) =
           (t @ map (\<lambda>i. Failed i x) [0..<length (databases cfg)] @ fst (feed cfg items),
            snd (feed cfg items)))) \<and>
    (e = SystemExit \<longrightarrow>
      feed_item cfg td item = (t, Uncaught SystemExit) \<and>
      feed cfg ((td, item) # items) = (t, Crashed SystemExit)) \<and>
    (\<forall>d item'. create td = Inr d \<longrightarrow> set_tmp_dir (metadata_cls cfg) d item = Inr item' \<longrightarrow>
      (cleanup td = Inr () \<longrightarrow> archive cfg item' = (t, Inl (e, x))) \<and>
      (\<forall>e'. cleanup td = Inl e' \<longrightarrow> e = e' \<and> fst (archive cfg item') = t))"
proof -
  have link: "\<forall>d item'. create td = Inr d \<longrightarrow>
      set_tmp_dir (metadata_cls cfg) d item = Inr item' \<longrightarrow>
      (cleanup td = Inr () \<longrightarrow> archive cfg item' = (t, Inl (e, x))) \<and>
      (\<forall>e'. cleanup td = Inl e' \<longrightarrow> e = e' \<and> fst (archive cfg item') = t)"
  proof (intro allI impI conjI)
    fix d item'
    assume c: "create td = Inr d" and s: "set_tmp_dir (metadata_cls cfg) d item = Inr item'"
    show "archive cfg item' = (t, Inl (e, x))" if "cleanup td = Inr ()"
      using with_tmp_dir_archive [OF c s that] assms by simp
    show "e = e'" and "fst (archive cfg item') = t" if "cleanup td = Inl e'" for e'
      using with_tmp_dir_dirty [OF c s that] assms by simp_all
  qed
  show ?thesis
  proof (cases e)
    case Exception
    with assms failed_item_continues [where cfg = cfg and item = item and td = td and t = t
        and x = x and items = items]
      failed_item_calls [where cfg = cfg and item = item and td = td and t = t and x = x]
      link
    show ?thesis by (simp del: feed.simps)
  next
    case KeyboardInterrupt
    with assms interrupted_item_stops_run [where cfg = cfg and item = item and td = td
        and t = t and x = x and items = items] link
    show ?thesis by (simp del: feed.simps)
  next
    case SystemExit
    with assms have fi: "feed_item cfg td item = (t, Uncaught SystemExit)"
      by (simp add: feed_item_uncaught)
    from feed_crashes [OF this, of items] fi SystemExit link
    show ?thesis by (simp del: feed.simps)
  qed
qed

theorem run_loop_handles_errors_witness:
  "with_tmp_dir interrupt_cfg tmp (plain_item ''a'') =
     (pre_download_calls tmp_item @ [Download 0 tmp_item, Download 1 tmp_item],
      Inl (KeyboardInterrupt, tmp_item)) \<and>
   aborted quiet_db tmp_item = Inr () \<and>
   feed interrupt_cfg [(tmp, plain_item ''a''), (tmp, plain_item ''a'')] =
     (pre_download_calls tmp_item @ [Download 0 tmp_item, Download 1 tmp_item] @
      [Aborted 0 tmp_item, Aborted 1 tmp_item], Exited) \<and>
   with_tmp_dir failing_cfg tmp (plain_item ''a'') =
     ([Started 0 tmp_item, Fetch 0 tmp_item, Started 1 tmp_item, Fetch 1 tmp_item,
       Enrich 0 tmp_item], Inl (Exception, tmp_item)) \<and>
   failed quiet_db tmp_item = Inr () \<and>
   feed failing_cfg [(tmp, plain_item ''a''), (tmp, plain_item ''a'')] =
     ([Started 0 tmp_item, Fetch 0 tmp_item, Started 1 tmp_item, Fetch 1 tmp_item,
       Enrich 0 tmp_item, Failed 0 tmp_item, Failed 1 tmp_item,
       Started 0 tmp_item, Fetch 0 tmp_item, Started 1 tmp_item, Fetch 1 tmp_item,
       Enrich 0 tmp_item, Failed 0 tmp_item, Failed 1 tmp_item], Exhausted) \<and>
   with_tmp_dir interrupt_cfg dirty_tmp (plain_item ''a'') =
     (pre_download_calls tmp_item @ [Download 0 tmp_item, Download 1 tmp_item],
      Inl (Exception, tmp_item)) \<and>
   feed interrupt_cfg [(dirty_tmp, plain_item ''a'')] =
     (pre_download_calls tmp_item @ [Download 0 tmp_item, Download 1 tmp_item] @
      [Failed 0 tmp_item, Failed 1 tmp_item], Exhausted)"
proof -
  have a1: "with_tmp_dir interrupt_cfg tmp (plain_item ''a'') =
     (pre_download_calls tmp_item @ [Download 0 tmp_item, Download 1 tmp_item],
      Inl (KeyboardInterrupt, tmp_item))"
    by (simp add: archive_def sanitize_stage_def rearchivable_stage_def cache_lookup_def
        after_lookup_def pipeline_def fetch_stage_def enrich_stage_def store_stage_def
        render_stage_def done_stage_def done_all_def short_circuit_def merge_local_def or_new_def
        with_tmp_dir_def leave_with_def feed_item_def plain_item_def simple_cls_def quiet_db_def no_formatter_def base_cfg_def
        set_meta_def Let_def tmp_def
        nomatch_archiver_def interrupted_archiver_def interrupt_cfg_def tmp_item_def
        pre_download_calls_def)
  have n1: "[0..<length (databases interrupt_cfg)] = [0, 1]"
    by (simp add: interrupt_cfg_def base_cfg_def upt_conv_Cons)
  have h1: "\<forall>d \<in> set (databases interrupt_cfg). aborted d tmp_item = Inr ()"
    by (simp add: interrupt_cfg_def base_cfg_def quiet_db_def)
  have a2: "with_tmp_dir failing_cfg tmp (plain_item ''a'') =
     ([Started 0 tmp_item, Fetch 0 tmp_item, Started 1 tmp_item, Fetch 1 tmp_item,
       Enrich 0 tmp_item], Inl (Exception, tmp_item))"
    by (simp add: archive_def sanitize_stage_def rearchivable_stage_def cache_lookup_def
        after_lookup_def pipeline_def fetch_stage_def enrich_stage_def store_stage_def
        render_stage_def done_stage_def done_all_def short_circuit_def merge_local_def or_new_def
        with_tmp_dir_def leave_with_def feed_item_def plain_item_def simple_cls_def quiet_db_def no_formatter_def base_cfg_def
        set_meta_def Let_def tmp_def
        failing_enricher_def failing_cfg_def tmp_item_def)
  have n2: "[0..<length (databases failing_cfg)] = [0, 1]"
    by (simp add: failing_cfg_def base_cfg_def upt_conv_Cons)
  have h2: "\<forall>d \<in> set (databases failing_cfg). failed d tmp_item = Inr ()"
    by (simp add: failing_cfg_def base_cfg_def quiet_db_def)
  have a3: "with_tmp_dir interrupt_cfg dirty_tmp (plain_item ''a'') =
     (pre_download_calls tmp_item @ [Download 0 tmp_item, Download 1 tmp_item],
      Inl (Exception, tmp_item))"
    by (simp add: archive_def sanitize_stage_def rearchivable_stage_def cache_lookup_def
        after_lookup_def pipeline_def fetch_stage_def enrich_stage_def store_stage_def
        render_stage_def done_stage_def done_all_def short_circuit_def merge_local_def or_new_def
        with_tmp_dir_def leave_with_def feed_item_def plain_item_def simple_cls_def quiet_db_def no_formatter_def base_cfg_def
        set_meta_def Let_def dirty_tmp_def
        nomatch_archiver_def interrupted_archiver_def interrupt_cfg_def tmp_item_def
        pre_download_calls_def)
  have h3: "\<forall>d \<in> set (databases interrupt_cfg). failed d tmp_item = Inr ()"
    by (simp add: interrupt_cfg_def base_cfg_def quiet_db_def)
  have e: "feed interrupt_cfg [] = ([], Exhausted)" "feed failing_cfg [] = ([], Exhausted)"
    by simp_all
  from run_loop_handles_errors [OF a1, of "[(tmp, plain_item ''a'')]"] h1 n1
  have f1: "feed interrupt_cfg [(tmp, plain_item ''a''), (tmp, plain_item ''a'')] =
     (pre_download_calls tmp_item @ [Download 0 tmp_item, Download 1 tmp_item] @
      [Aborted 0 tmp_item, Aborted 1 tmp_item], Exited)"
    by (simp del: feed.simps)
  from run_loop_handles_errors [OF a2, of "[]"] h2 n2 e
  have f2: "feed failing_cfg [(tmp, plain_item ''a'')] =
     ([Started 0 tmp_item, Fetch 0 tmp_item, Started 1 tmp_item, Fetch 1 tmp_item,
       Enrich 0 tmp_item, Failed 0 tmp_item, Failed 1 tmp_item], Exhausted)"
    by (simp del: feed.simps)
  from run_loop_handles_errors [OF a2, of "[(tmp, plain_item ''a'')]"] h2 n2 f2
  have f3: "feed failing_cfg [(tmp, plain_item ''a''), (tmp, plain_item ''a'')] =
     ([Started 0 tmp_item, Fetch 0 tmp_item, Started 1 tmp_item, Fetch 1 tmp_item,
       Enrich 0 tmp_item, Failed 0 tmp_item, Failed 1 tmp_item,
       Started 0 tmp_item, Fetch 0 tmp_item, Started 1 tmp_item, Fetch 1 tmp_item,
       Enrich 0 tmp_item, Failed 0 tmp_item, Failed 1 tmp_item], Exhausted)"
    by (simp del: feed.simps)
  from run_loop_handles_errors [OF a3, of "[]"] h3 n1 e
  have f4: "feed interrupt_cfg [(dirty_tmp, plain_item ''a'')] =
     (pre_download_calls tmp_item @ [Download 0 tmp_item, Download 1 tmp_item] @
      [Failed 0 tmp_item, Failed 1 tmp_item], Exhausted)"
    by (simp del: feed.simps)
  from a1 a2 a3 f1 f3 f4 show ?thesis
    by (simp add: tmp_item_def quiet_db_def del: feed.simps)
qed

text \<open>
  C3 as stated fails: an enricher raises an \<open>Exception\<close>, and the \<open>failed\<close> call of
  the first State Store raises in its turn. The second State Store is not called, and
  the loop does not continue: the second item of the feed is never processed.
\<close>

theorem failed_raises_counterexample:
  "archive raising_failed_cfg tmp_item =
     ([Started 0 tmp_item, Fetch 0 tmp_item, Started 1 tmp_item, Fetch 1 tmp_item,
       Enrich 0 tmp_item], Inl (Exception, tmp_item)) \<and>
   feed raising_failed_cfg [(tmp, plain_item ''a''), (tmp, plain_item ''a'')] =
     ([Started 0 tmp_item, Fetch 0 tmp_item, Started 1 tmp_item, Fetch 1 tmp_item,
       Enrich 0 tmp_item, Failed 0 tmp_item], Crashed Exception)"
  by (simp add: archive_def sanitize_stage_def rearchivable_stage_def cache_lookup_def
        after_lookup_def pipeline_def fetch_stage_def enrich_stage_def store_stage_def
        render_stage_def done_stage_def done_all_def short_circuit_def merge_local_def or_new_def
        with_tmp_dir_def leave_with_def feed_item_def plain_item_def simple_cls_def quiet_db_def no_formatter_def base_cfg_def
        set_meta_def Let_def tmp_def
      failing_enricher_def failing_cfg_def raising_failed_cfg_def tmp_item_def)




text \<open>
  C5. For a sink whose \<open>store\<close> calls return and a Media Object of the record whose
  property values are, in any order, one scalar, one Media Object \<open>n\<close> and one list of
  two Media Objects \<open>a\<close> and \<open>b\<close>, the body of the STORE_MEDIA loop calls \<open>store\<close>
  exactly 4 times: once each on the Media Object itself, on \<open>n\<close>, on \<open>a\<close> and on
  \<open>b\<close>. Whatever \<open>n\<close>, \<open>a\<close> and \<open>b\<close> hold in their own properties is not stored:
  the walk is one level deep. Over the whole stage, for a record with this one Media
  Object, every registered sink is called exactly 4 times when the \<open>store\<close> calls of
  all sinks return.
\<close>

theorem nested_media_stored_once:
  assumes "returns s"
    and "mset (map snd (properties m)) = {#Scalar c, VMedia n, VList [VMedia a, VMedia b]#}"
  shows "length (fst (store_media s k result_of m)) = 4 \<and>
    mset (fst (store_media s k result_of m)) =
      {#Store k (VMedia m), Store k (VMedia n), Store k (VMedia a), Store k (VMedia b)#} \<and>
    ((\<forall>s' \<in> set (storages cfg). returns s') \<longrightarrow> media r = [m] \<longrightarrow>
       (\<forall>j < length (storages cfg). length (by_sink j (fst (store_stage cfg r))) = 4))"
proof -
  let ?nested = "concat (map (\<lambda>kp. nested_media (snd kp)) (properties m))"
  have "?nested = concat (map nested_media (map snd (properties m)))"
    by (simp add: comp_def)
  then have "mset ?nested = (\<Sum>v \<in># mset (map snd (properties m)). mset (nested_media v))"
    by (simp only: mset_concat sum_mset_sum_list [symmetric] mset_map map_map comp_def
        image_mset.compositionality)
  moreover have "image_mset snd (mset (properties m)) =
      {#Scalar c, VMedia n, VList [VMedia a, VMedia b]#}"
    using assms(2) by simp
  ultimately have n: "mset ?nested = {#VMedia n, VMedia a, VMedia b#}"
    by simp
  from store_media_returns [OF assms(1), of k result_of m] obtain m' where
    t: "fst (store_media s k result_of m) = Store k (VMedia m) # map (Store k) ?nested"
    by auto
  have "mset (fst (store_media s k result_of m)) =
      add_mset (Store k (VMedia m)) (image_mset (Store k) (mset ?nested))"
    by (simp only: t mset.simps mset_map)
  with n have m: "mset (fst (store_media s k result_of m)) =
      {#Store k (VMedia m), Store k (VMedia n), Store k (VMedia a), Store k (VMedia b)#}"
    by simp
  from arg_cong [OF m, of size] have l: "length (fst (store_media s k result_of m)) = 4"
    by simp
  have st: "length (by_sink j (fst (store_stage cfg r))) = 4"
    if "\<forall>s' \<in> set (storages cfg). returns s'" "media r = [m]" "j < length (storages cfg)" for j
    using store_stage_counts [OF that(1,3), of r] that(2) store_calls_four [OF assms(2)]
    by simp
  from l m st show ?thesis by blast
qed

theorem nested_media_stored_once_witness:
  "store disk (VMedia video) (video_item video) = Inr ''cdn'' \<and>
   mset (map snd (properties video)) =
     {#Scalar ''12'', VMedia thumb, VList [VMedia frame1, VMedia frame2]#} \<and>
   fst (store_media disk 0 video_item video) =
     [Store 0 (VMedia video), Store 0 (VMedia thumb),
      Store 0 (VMedia frame1), Store 0 (VMedia frame2)] \<and>
   length (fst (store_media disk 0 video_item video)) = 4 \<and>
   media (video_item video) = [video] \<and> (1::nat) < length (storages two_disk_cfg) \<and>
   length (by_sink 1 (fst (store_stage two_disk_cfg (video_item video)))) = 4"
proof -
  have h1: "returns disk"
    by (simp add: returns_def disk_def)
  have h2: "mset (map snd (properties video)) =
     {#Scalar ''12'', VMedia thumb, VList [VMedia frame1, VMedia frame2]#}"
    by (simp add: video_def)
  have t: "fst (store_media disk 0 video_item video) =
     [Store 0 (VMedia video), Store 0 (VMedia thumb),
      Store 0 (VMedia frame1), Store 0 (VMedia frame2)]"
    by (simp add: store_media_def store_prop_def store_obj_def set_media_locator_def
        set_properties_def disk_def video_def thumb_def frame1_def frame2_def Let_def)
  have h3: "\<forall>s' \<in> set (storages two_disk_cfg). returns s'"
    using h1 by (simp add: two_disk_cfg_def base_cfg_def)
  have h4: "media (video_item video) = [video]"
    by (simp add: video_item_def plain_item_def)
  have h5: "(1::nat) < length (storages two_disk_cfg)"
    by (simp add: two_disk_cfg_def base_cfg_def)
  from nested_media_stored_once [OF h1 h2, of 0 video_item two_disk_cfg "video_item video"]
    h3 h4 h5
  have "length (fst (store_media disk 0 video_item video)) = 4 \<and>
    length (by_sink 1 (fst (store_stage two_disk_cfg (video_item video)))) = 4"
    by blast
  with h2 h4 h5 t show ?thesis
    by (simp add: disk_def)
qed

text \<open>
  C6. When the SANITIZE stage returns, the URL of the record is the result of applying
  the \<open>sanitize_url\<close> of every archiver once, in registration order, each to the output
  of the one before, starting from the original URL: there is one call per archiver,
  and the \<open>j\<close>-th call receives what the first \<open>j\<close> sanitizers made of the original
  URL. The stage writes the original URL under the key \<open>original_url\<close> if and only if
  the final URL differs from it: the record that it returns is the incoming one with the
  new URL and, in that case only, with that key set.
\<close>

theorem sanitize_stage_composes:
  assumes "sanitize_stage cfg result = (t, Inr result')"
  shows "apply_sanitizers (archivers cfg) (url result) = Inr (url result') \<and>
    length t = length (archivers cfg) \<and>
    (\<forall>j < length (archivers cfg). \<exists>v.
       apply_sanitizers (take j (archivers cfg)) (url result) = Inr v \<and> t ! j = SanitizeUrl j v) \<and>
    result' = (if url result' \<noteq> url result
               then set_meta ''original_url'' (url result) (result\<lparr>url := url result'\<rparr>)
               else result\<lparr>url := url result'\<rparr>)"
proof -
  let ?l = "sanitize_loop (enumerate 0 (archivers cfg)) result (url result)"
  obtain tl rl where l: "?l = (tl, rl)" by (cases ?l)
  from assms l obtain u where u: "rl = Inr u" and t: "t = tl"
    and r': "result' = (if url result \<noteq> u
               then set_meta ''original_url'' (url result) (result\<lparr>url := u\<rparr>)
               else result\<lparr>url := u\<rparr>)"
    by (cases rl) (auto simp: sanitize_stage_def Let_def)
  have url: "url result' = u" using r' by (simp add: set_meta_def)
  have s: "snd ?l = Inr u" using l u by simp
  have 1: "apply_sanitizers (archivers cfg) (url result) = Inr u"
    using s snd_sanitize_loop [of 0 "archivers cfg" result "url result"]
    by (auto split: sum.splits)
  have 2: "length t = length (archivers cfg)"
    using length_sanitize_loop [OF s] l t by simp
  have 3: "\<forall>j < length (archivers cfg). \<exists>v.
       apply_sanitizers (take j (archivers cfg)) (url result) = Inr v \<and> t ! j = SanitizeUrl j v"
    using nth_sanitize_loop [OF s] l t by simp
  show ?thesis using 1 2 3 r' url by auto
qed

theorem sanitize_stage_composes_witness:
  "sanitize_stage hit_cfg (plain_item ''a'') =
     ([SanitizeUrl 0 ''a''], Inr (set_meta ''original_url'' ''a'' (plain_item ''a/''))) \<and>
   apply_sanitizers (archivers hit_cfg) ''a'' = Inr ''a/''"
proof -
  have h: "sanitize_stage hit_cfg (plain_item ''a'') =
     ([SanitizeUrl 0 ''a''], Inr (set_meta ''original_url'' ''a'' (plain_item ''a/'')))"
    by (simp add: sanitize_stage_def plain_item_def simple_cls_def quiet_db_def no_formatter_def base_cfg_def
        set_meta_def Let_def
        slash_archiver_def seen_before_def hit_db_def hit_cfg_def)
  from sanitize_stage_composes [OF h] h show ?thesis
    by (simp add: plain_item_def simple_cls_def quiet_db_def no_formatter_def base_cfg_def
        set_meta_def Let_def
        slash_archiver_def seen_before_def hit_db_def hit_cfg_def)
qed

text \<open>
  C7, as amended. When the REARCHIVABLE_CHECK stage returns, the flag of the record is
  the flag it had on arrival or-ed with the answers of the archivers for the sanitized
  URL; so for a record that arrives with the flag false, the flag is true if and only if
  some archiver answers true. Every archiver is asked once, in registration order.
\<close>

theorem rearchivable_flag_accumulates:
  assumes "rearchivable_stage cfg r = (t, Inr r')"
  shows "rearchivable r' =
      (rearchivable r \<or> (\<exists>a \<in> set (archivers cfg). is_rearchivable a (url r) = Inr True)) \<and>
    (\<not> rearchivable r \<longrightarrow> rearchivable r' = any_rearchivable (archivers cfg) (url r)) \<and>
    t = map (\<lambda>i. IsRearchivable i (url r)) [0..<length (archivers cfg)]"
  using rearchivable_loop_returns [of "enumerate 0 (archivers cfg)" "url r" r t r']
    assms map_enumerate_index [of "\<lambda>i. IsRearchivable i (url r)" 0 "archivers cfg"]
  by (auto simp: rearchivable_stage_def any_rearchivable_iff)

theorem rearchivable_flag_accumulates_witness:
  "rearchivable_stage tweet_cfg (plain_item ''a'') =
     ([IsRearchivable 0 ''a'', IsRearchivable 1 ''a''],
      Inr ((plain_item ''a'')\<lparr>rearchivable := True\<rparr>)) \<and>
   \<not> rearchivable (plain_item ''a'') \<and>
   rearchivable ((plain_item ''a'')\<lparr>rearchivable := True\<rparr>) =
     any_rearchivable (archivers tweet_cfg) (url (plain_item ''a''))"
proof -
  have h: "rearchivable_stage tweet_cfg (plain_item ''a'') =
     ([IsRearchivable 0 ''a'', IsRearchivable 1 ''a''],
      Inr ((plain_item ''a'')\<lparr>rearchivable := True\<rparr>))"
    by (simp add: rearchivable_stage_def plain_item_def simple_cls_def quiet_db_def no_formatter_def base_cfg_def
        set_meta_def Let_def
        slash_archiver_def tweet_archiver_def tweet_cfg_def)
  have f: "\<not> rearchivable (plain_item ''a'')"
    by (simp add: plain_item_def)
  from rearchivable_flag_accumulates [OF h] f h show ?thesis
    by blast
qed

text \<open>
  C7 as stated fails: a record that arrives with the flag set keeps it, although no
  archiver answers true (here none is registered).
\<close>

theorem rearchivable_iff_some_archiver_counterexample:
  "rearchivable_stage base_cfg flagged_item = ([], Inr flagged_item) \<and>
   rearchivable flagged_item \<and>
   \<not> any_rearchivable (archivers base_cfg) (url flagged_item)"
  by (simp add: rearchivable_stage_def base_cfg_def flagged_item_def)




text \<open>
  C9, as amended. When the download loop is reached, the archivers \<open>before\<close> neither
  succeed nor are cut short, and the download of the next archiver \<open>a\<close> is cut short by
  \<open>KeyboardInterrupt\<close>, then \<open>a\<close> is the last archiver called (the archivers in
  \<open>rest\<close> are not tried) and the interrupt leaves \<open>archive\<close>. When the clean-up of
  the temporary directory returns, the run loop takes the aborted path: it calls
  \<open>aborted\<close> on the State Stores in registration order, on all of them when these calls
  return, and the run ends there without any further item. When the clean-up raises an
  \<open>Exception\<close>, that error takes the place of the interrupt, and the calls that follow
  are \<open>failed\<close> calls.
\<close>

theorem interrupted_download_aborts:
  assumes "create td = Inr d"
    and "set_tmp_dir (metadata_cls cfg) d item = Inr item'"
    and "sanitize_stage cfg item' = (t1, Inr r1)"
    and "rearchivable_stage cfg r1 = (t2, Inr r2)"
    and "cache_lookup cfg r2 = (t3, Inr cached)"
    and "\<not> cache_hit (metadata_cls cfg) cached"
    and "archivers cfg = before @ a # rest"
    and "\<forall>ar \<in> set (tried_with (metadata_cls cfg) before r2).
      \<not> succeeds (metadata_cls cfg) ar \<and> download (fst ar) (snd ar) \<noteq> Inl KeyboardInterrupt \<and>
      download (fst ar) (snd ar) \<noteq> Inl SystemExit"
    and "x = foldl (after_download (metadata_cls cfg)) r2 before"
    and "download a x = Inl KeyboardInterrupt"
    and "t = t1 @ t2 @ t3 @ download_calls 0 (tried_with (metadata_cls cfg) (before @ [a]) r2)"
  shows "archive cfg item' = (t, Inl (KeyboardInterrupt, x)) \<and>
    (cleanup td = Inr () \<longrightarrow>
      (\<exists>k \<le> length (databases cfg).
          fst (feed cfg ((td, item) # items)) = t @ map (\<lambda>i. Aborted i x) [0..<k]) \<and>
      snd (feed cfg ((td, item) # items)) \<noteq> Exhausted \<and>
      ((\<forall>d \<in> set (databases cfg). aborted d x = Inr ()) \<longrightarrow>
         feed cfg ((td, item) # items) =
           (t @ map (\<lambda>i. Aborted i x) [0..<length (databases cfg)], Exited))) \<and>
    (cleanup td = Inl Exception \<longrightarrow>
      (\<exists>k \<le> length (databases cfg).
          fst (feed_item cfg td item) = t @ map (\<lambda>i. Failed i x) [0..<k]))"
proof -
  have f: "fetch_stage cfg r2 =
      (download_calls 0 (tried_with (metadata_cls cfg) (before @ [a]) r2),
       Inl (KeyboardInterrupt, x))"
    using fetch_loop_interrupted [OF assms(8), of a 0 rest] assms(7,9,10)
    by (simp add: fetch_stage_def)
  have "after_lookup cfg r2 cached =
      bind (pipeline cfg r2) (\<lambda>result. ([], Inr (result, result)))"
    using assms(6) by (rule after_lookup_no_hit)
  with pipeline_fetch_error [OF f] archive_after_lookup [OF assms(3-5)] assms(11)
  have a: "archive cfg item' = (t, Inl (KeyboardInterrupt, x))"
    by simp
  have b: "(\<exists>k \<le> length (databases cfg).
          fst (feed cfg ((td, item) # items)) = t @ map (\<lambda>i. Aborted i x) [0..<k]) \<and>
      snd (feed cfg ((td, item) # items)) \<noteq> Exhausted \<and>
      ((\<forall>d \<in> set (databases cfg). aborted d x = Inr ()) \<longrightarrow>
         feed cfg ((td, item) # items) =
           (t @ map (\<lambda>i. Aborted i x) [0..<length (databases cfg)], Exited))"
    if "cleanup td = Inr ()"
  proof -
    from with_tmp_dir_archive [OF assms(1,2) that] a
    have "with_tmp_dir cfg td item = (t, Inl (KeyboardInterrupt, x))" by simp
    from interrupted_item_stops_run [OF this, of items] show ?thesis by blast
  qed
  have c: "\<exists>k \<le> length (databases cfg).
          fst (feed_item cfg td item) = t @ map (\<lambda>i. Failed i x) [0..<k]"
    if "cleanup td = Inl Exception"
  proof -
    from with_tmp_dir_dirty [OF assms(1,2) that] a
    have "with_tmp_dir cfg td item = (t, Inl (Exception, x))" by simp
    then show ?thesis by (rule failed_item_calls)
  qed
  from a b c show ?thesis by blast
qed

theorem interrupted_download_aborts_witness:
  "create tmp = Inr ''t'' \<and>
   set_tmp_dir (metadata_cls interrupt_cfg) ''t'' (plain_item ''a'') = Inr tmp_item \<and>
   sanitize_stage interrupt_cfg tmp_item =
     ([SanitizeUrl 0 ''a'', SanitizeUrl 1 ''a'', SanitizeUrl 2 ''a''], Inr tmp_item) \<and>
   rearchivable_stage interrupt_cfg tmp_item =
     ([IsRearchivable 0 ''a'', IsRearchivable 1 ''a'', IsRearchivable 2 ''a''], Inr tmp_item) \<and>
   cache_lookup interrupt_cfg tmp_item = (interleaved tmp_item 2, Inr None) \<and>
   \<not> cache_hit (metadata_cls interrupt_cfg) None \<and>
   archivers interrupt_cfg = [nomatch_archiver] @ interrupted_archiver # [nomatch_archiver] \<and>
   \<not> succeeds (metadata_cls interrupt_cfg) (nomatch_archiver, tmp_item) \<and>
   download nomatch_archiver tmp_item \<noteq> Inl KeyboardInterrupt \<and>
   download nomatch_archiver tmp_item \<noteq> Inl SystemExit \<and>
   download interrupted_archiver tmp_item = Inl KeyboardInterrupt \<and>
   cleanup tmp = Inr () \<and> aborted quiet_db tmp_item = Inr () \<and>
   archive interrupt_cfg tmp_item =
     (pre_download_calls tmp_item @ [Download 0 tmp_item, Download 1 tmp_item],
      Inl (KeyboardInterrupt, tmp_item)) \<and>
   feed interrupt_cfg [(tmp, plain_item ''a''), (tmp, plain_item ''a'')] =
     (pre_download_calls tmp_item @ [Download 0 tmp_item, Download 1 tmp_item] @
      [Aborted 0 tmp_item, Aborted 1 tmp_item], Exited)"
proof -
  let ?cls = "metadata_cls interrupt_cfg"
  have c1: "create tmp = Inr ''t''" and c2: "cleanup tmp = Inr ()"
    by (simp_all add: tmp_def)
  have s: "set_tmp_dir ?cls ''t'' (plain_item ''a'') = Inr tmp_item"
    by (simp add: interrupt_cfg_def base_cfg_def simple_cls_def tmp_item_def)
  have h1: "sanitize_stage interrupt_cfg tmp_item =
     ([SanitizeUrl 0 ''a'', SanitizeUrl 1 ''a'', SanitizeUrl 2 ''a''], Inr tmp_item)"
    by (simp add: sanitize_stage_def plain_item_def simple_cls_def quiet_db_def no_formatter_def base_cfg_def
        set_meta_def Let_def
        nomatch_archiver_def interrupted_archiver_def interrupt_cfg_def tmp_item_def)
  have h2: "rearchivable_stage interrupt_cfg tmp_item =
     ([IsRearchivable 0 ''a'', IsRearchivable 1 ''a'', IsRearchivable 2 ''a''], Inr tmp_item)"
    by (simp add: rearchivable_stage_def plain_item_def simple_cls_def quiet_db_def no_formatter_def base_cfg_def
        set_meta_def Let_def
        nomatch_archiver_def interrupted_archiver_def interrupt_cfg_def tmp_item_def)
  have h3: "cache_lookup interrupt_cfg tmp_item = (interleaved tmp_item 2, Inr None)"
    by (simp add: cache_lookup_def merge_local_def interleaved_def upt_conv_Cons
        interrupt_cfg_def base_cfg_def quiet_db_def)
  have h4: "\<not> cache_hit ?cls None"
    by (simp add: cache_hit_def)
  have h5: "archivers interrupt_cfg = [nomatch_archiver] @ interrupted_archiver # [nomatch_archiver]"
    by (simp add: interrupt_cfg_def base_cfg_def)
  have after: "after_download ?cls tmp_item nomatch_archiver = tmp_item"
    by (simp add: after_download_def plain_item_def simple_cls_def quiet_db_def no_formatter_def base_cfg_def
        set_meta_def Let_def
        nomatch_archiver_def interrupted_archiver_def interrupt_cfg_def tmp_item_def)
  have ns: "\<not> succeeds ?cls (nomatch_archiver, tmp_item)"
    by (simp add: succeeds_def plain_item_def simple_cls_def quiet_db_def no_formatter_def base_cfg_def
        set_meta_def Let_def
        nomatch_archiver_def interrupted_archiver_def interrupt_cfg_def tmp_item_def)
  have ni: "download nomatch_archiver tmp_item \<noteq> Inl KeyboardInterrupt"
    "download nomatch_archiver tmp_item \<noteq> Inl SystemExit"
    by (simp_all add: nomatch_archiver_def)
  have h6: "\<forall>ar \<in> set (tried_with ?cls [nomatch_archiver] tmp_item).
      \<not> succeeds ?cls ar \<and> download (fst ar) (snd ar) \<noteq> Inl KeyboardInterrupt \<and>
      download (fst ar) (snd ar) \<noteq> Inl SystemExit"
    using ns ni by simp
  have h7: "tmp_item = foldl (after_download ?cls) tmp_item [nomatch_archiver]"
    using after by simp
  have h8: "download interrupted_archiver tmp_item = Inl KeyboardInterrupt"
    by (simp add: interrupted_archiver_def)
  have h9: "pre_download_calls tmp_item @ [Download 0 tmp_item, Download 1 tmp_item] =
      [SanitizeUrl 0 ''a'', SanitizeUrl 1 ''a'', SanitizeUrl 2 ''a''] @
      [IsRearchivable 0 ''a'', IsRearchivable 1 ''a'', IsRearchivable 2 ''a''] @
      interleaved tmp_item 2 @
      download_calls 0 (tried_with ?cls ([nomatch_archiver] @ [interrupted_archiver]) tmp_item)"
    using after by (simp add: pre_download_calls_def interleaved_def upt_conv_Cons)
  have hd: "\<forall>d \<in> set (databases interrupt_cfg). aborted d tmp_item = Inr ()"
    by (simp add: interrupt_cfg_def base_cfg_def quiet_db_def)
  have n: "[0..<length (databases interrupt_cfg)] = [0, 1]"
    by (simp add: interrupt_cfg_def base_cfg_def upt_conv_Cons)
  from interrupted_download_aborts [OF c1 s h1 h2 h3 h4 h5 h6 h7 h8 h9,
      of "[(tmp, plain_item ''a'')]"] c2 hd n
  have "archive interrupt_cfg tmp_item =
     (pre_download_calls tmp_item @ [Download 0 tmp_item, Download 1 tmp_item],
      Inl (KeyboardInterrupt, tmp_item)) \<and>
   feed interrupt_cfg [(tmp, plain_item ''a''), (tmp, plain_item ''a'')] =
     (pre_download_calls tmp_item @ [Download 0 tmp_item, Download 1 tmp_item] @
      [Aborted 0 tmp_item, Aborted 1 tmp_item], Exited)"
    by (simp del: feed.simps)
  with c1 c2 s h1 h2 h3 h4 h5 ns ni h8 show ?thesis
    by (simp add: quiet_db_def del: feed.simps)
qed

text \<open>
  C9 as stated fails: the download of the second archiver is interrupted and the
  clean-up returns, but the \<open>aborted\<close> call of the first State Store raises. The
  second State Store is never told, and the run ends with that error.
\<close>

theorem aborted_raises_counterexample:
  "download interrupted_archiver tmp_item = Inl KeyboardInterrupt \<and>
   archive raising_aborted_cfg tmp_item =
     (pre_download_calls tmp_item @ [Download 0 tmp_item, Download 1 tmp_item],
      Inl (KeyboardInterrupt, tmp_item)) \<and>
   feed raising_aborted_cfg [(tmp, plain_item ''a'')] =
     (pre_download_calls tmp_item @ [Download 0 tmp_item, Download 1 tmp_item] @
      [Aborted 0 tmp_item], Crashed Exception)"
  by (simp add: archive_def sanitize_stage_def rearchivable_stage_def cache_lookup_def
        after_lookup_def pipeline_def fetch_stage_def enrich_stage_def store_stage_def
        render_stage_def done_stage_def done_all_def short_circuit_def merge_local_def or_new_def
        with_tmp_dir_def leave_with_def feed_item_def plain_item_def simple_cls_def quiet_db_def no_formatter_def base_cfg_def
        set_meta_def Let_def tmp_def
      nomatch_archiver_def interrupted_archiver_def interrupt_cfg_def raising_aborted_cfg_def
      tmp_item_def pre_download_calls_def)

text \<open>
  C10. A property whose value is a non-empty list is classified by its first element.
  When that element is a Media Object, the elements of the list are passed to \<open>store\<close>
  in order, whatever they are: the calls are always a prefix of the list, and the whole
  list when the \<open>store\<close> calls of the sink return. When the first element is not a
  Media Object, no element is stored and the property is left as it is, whatever
  follows in the list. Over the STORE_MEDIA stage, when the \<open>store\<close> calls return, every
  registered sink is given, for every Media Object of the record in turn, the object and
  then what each of its properties contributes, a list contributing all of its elements
  or none by this rule; a sink after the first is given the same objects with the
  locators that the sinks before it have set.
\<close>

theorem list_property_classified_by_first:
  "(is_Media x \<longrightarrow>
      (\<exists>j. fst (store_prop s k result_of (VList (x # xs))) = map (Store k) (take j (x # xs))) \<and>
      (returns s \<longrightarrow>
         fst (store_prop s k result_of (VList (x # xs))) = map (Store k) (x # xs))) \<and>
   (\<not> is_Media x \<longrightarrow>
      store_prop s k result_of (VList (x # xs)) = ([], Inr (VList (x # xs)))) \<and>
   nested_media (VList (x # xs)) = (if is_Media x then x # xs else []) \<and>
   ((\<forall>s' \<in> set (storages cfg). returns s') \<longrightarrow>
      (0 < length (storages cfg) \<longrightarrow>
         objects_stored 0 (fst (store_stage cfg r)) = concat (map objects_of (media r))) \<and>
      (\<forall>j < length (storages cfg).
         map strip (objects_stored j (fst (store_stage cfg r))) =
           map strip (concat (map objects_of (media r)))) \<and>
      (media r = [m] \<longrightarrow> properties m = [(key, VList (x # xs))] \<longrightarrow>
         (\<forall>j < length (storages cfg).
            map strip (objects_stored j (fst (store_stage cfg r))) =
              map strip (VMedia m # (if is_Media x then x # xs else [])))))"
proof -
  have 1: "\<exists>j. fst (store_prop s k result_of (VList (x # xs))) = map (Store k) (take j (x # xs))"
    if "is_Media x"
    using that store_each_prefix [of s k "\<lambda>ys. result_of (VList ys)" "[]" "x # xs"]
    by (simp add: store_prop_def fst_bind split: sum.splits)
  have 2: "fst (store_prop s k result_of (VList (x # xs))) = map (Store k) (x # xs)"
    if "is_Media x" "returns s"
    using store_prop_returns [OF that(2), of k result_of "VList (x # xs)"] that(1)
    by (auto simp: nested_media_list)
  have 3: "store_prop s k result_of (VList (x # xs)) = ([], Inr (VList (x # xs)))"
    if "\<not> is_Media x"
    using that by (simp add: store_prop_def)
  have 4: "nested_media (VList (x # xs)) = (if is_Media x then x # xs else [])"
    by (cases x) simp_all
  have 5: "objects_stored 0 (fst (store_stage cfg r)) = concat (map objects_of (media r))"
    if "\<forall>s' \<in> set (storages cfg). returns s'" "0 < length (storages cfg)"
    using that by (rule store_stage_first_sink)
  have 6: "map strip (objects_stored j (fst (store_stage cfg r))) =
           map strip (concat (map objects_of (media r)))"
    if "\<forall>s' \<in> set (storages cfg). returns s'" "j < length (storages cfg)" for j
    using that by (rule store_stage_objects)
  have 7: "map strip (objects_stored j (fst (store_stage cfg r))) =
              map strip (VMedia m # (if is_Media x then x # xs else []))"
    if "\<forall>s' \<in> set (storages cfg). returns s'" "j < length (storages cfg)"
      "media r = [m]" "properties m = [(key, VList (x # xs))]" for j
  proof -
    have "concat (map objects_of (media r)) = VMedia m # (if is_Media x then x # xs else [])"
      using that(3,4) 4 by (simp add: objects_of_def)
    with 6 [OF that(1,2)] show ?thesis by simp
  qed
  from 1 2 3 4 5 6 7 show ?thesis by blast
qed

theorem list_property_classified_by_first_witness:
  "is_Media (VMedia frame1) \<and>
   fst (store_prop disk 0 (\<lambda>p. plain_item ''a'') (VList [VMedia frame1, Scalar ''x''])) =
     [Store 0 (VMedia frame1), Store 0 (Scalar ''x'')] \<and>
   \<not> is_Media (Scalar ''x'') \<and>
   store_prop disk 0 (\<lambda>p. plain_item ''a'') (VList [Scalar ''x'', VMedia frame1]) =
     ([], Inr (VList [Scalar ''x'', VMedia frame1])) \<and>
   store disk (VMedia gallery) (video_item gallery) = Inr ''cdn'' \<and>
   (1::nat) < length (storages two_disk_cfg) \<and>
   media (video_item gallery) = [gallery] \<and>
   properties gallery = [(''frames'', VList [VMedia frame1, Scalar ''x''])] \<and>
   objects_stored 0 (fst (store_stage two_disk_cfg (video_item gallery))) =
     [VMedia gallery, VMedia frame1, Scalar ''x''] \<and>
   map strip (objects_stored 1 (fst (store_stage two_disk_cfg (video_item gallery)))) =
     [VMedia gallery, VMedia frame1, Scalar ''x''] \<and>
   media (video_item memo) = [memo] \<and>
   properties memo = [(''lines'', VList [Scalar ''x'', VMedia frame1])] \<and>
   objects_stored 0 (fst (store_stage two_disk_cfg (video_item memo))) = [VMedia memo] \<and>
   map strip (objects_stored 1 (fst (store_stage two_disk_cfg (video_item memo)))) =
     [VMedia memo]"
proof -
  have r: "returns disk"
    by (simp add: returns_def disk_def)
  have rs: "\<forall>s' \<in> set (storages two_disk_cfg). returns s'"
    using r by (simp add: two_disk_cfg_def base_cfg_def)
  have n: "(0::nat) < length (storages two_disk_cfg)" "(1::nat) < length (storages two_disk_cfg)"
    by (simp_all add: two_disk_cfg_def base_cfg_def)
  have g: "media (video_item gallery) = [gallery]"
    "properties gallery = [(''frames'', VList [VMedia frame1, Scalar ''x''])]"
    by (simp_all add: video_item_def plain_item_def gallery_def)
  have l: "media (video_item memo) = [memo]"
    "properties memo = [(''lines'', VList [Scalar ''x'', VMedia frame1])]"
    by (simp_all add: video_item_def plain_item_def memo_def)
  have og: "concat (map objects_of (media (video_item gallery))) =
      [VMedia gallery, VMedia frame1, Scalar ''x'']"
    using g by (simp add: objects_of_def)
  have ol: "concat (map objects_of (media (video_item memo))) = [VMedia memo]"
    using l by (simp add: objects_of_def)
  have sg: "map strip [VMedia gallery, VMedia frame1, Scalar ''x''] =
      [VMedia gallery, VMedia frame1, Scalar ''x'']"
    by (simp add: gallery_def frame1_def)
  have sl: "map strip [VMedia memo] = [VMedia memo]"
    by (simp add: memo_def frame1_def)
  note a = list_property_classified_by_first [of "VMedia frame1" disk 0 "\<lambda>p. plain_item ''a''"
      "[Scalar ''x'']" two_disk_cfg "video_item gallery" gallery "''frames''"]
  note b = list_property_classified_by_first [of "Scalar ''x''" disk 0 "\<lambda>p. plain_item ''a''"
      "[VMedia frame1]" two_disk_cfg "video_item memo" memo "''lines''"]
  from a r
  have 1: "fst (store_prop disk 0 (\<lambda>p. plain_item ''a'') (VList [VMedia frame1, Scalar ''x''])) =
     [Store 0 (VMedia frame1), Store 0 (Scalar ''x'')]"
    by simp
  from b
  have 2: "store_prop disk 0 (\<lambda>p. plain_item ''a'') (VList [Scalar ''x'', VMedia frame1]) =
     ([], Inr (VList [Scalar ''x'', VMedia frame1]))"
    by simp
  from a rs n(1) og
  have 3: "objects_stored 0 (fst (store_stage two_disk_cfg (video_item gallery))) =
     [VMedia gallery, VMedia frame1, Scalar ''x'']"
    by simp
  from a rs n(2) g
  have "map strip (objects_stored 1 (fst (store_stage two_disk_cfg (video_item gallery)))) =
     map strip (VMedia gallery #
       (if is_Media (VMedia frame1) then [VMedia frame1, Scalar ''x''] else []))"
    by blast
  with sg
  have 4: "map strip (objects_stored 1 (fst (store_stage two_disk_cfg (video_item gallery)))) =
     [VMedia gallery, VMedia frame1, Scalar ''x'']"
    by simp
  from b rs n(1) ol
  have 5: "objects_stored 0 (fst (store_stage two_disk_cfg (video_item memo))) = [VMedia memo]"
    by simp
  from b rs n(2) l
  have "map strip (objects_stored 1 (fst (store_stage two_disk_cfg (video_item memo)))) =
     map strip (VMedia memo #
       (if is_Media (Scalar ''x'') then [Scalar ''x'', VMedia frame1] else []))"
    by blast
  with sl
  have 6: "map strip (objects_stored 1 (fst (store_stage two_disk_cfg (video_item memo)))) =
     [VMedia memo]"
    by simp
  from 1 2 3 4 5 6 g l n(2) show ?thesis by (simp add: disk_def)
qed

end
